theory Spec2Isabelle
  imports Main
begin

section \<open>Groups, wires and the circuit context\<close>

text \<open>
  Modelled from the spec: the classes Group and Wire (src/groups/group.py and
  src/groups/wiregroup.py) are not among the source files. The spec describes a group as
  an algebraic structure supplying addition, subtraction and multiplication, all modulo
  a fixed order, a canonical embedding gen(n) of an integer n, and a native bit capacity.
  A wire is modelled by the value it carries when the circuit is evaluated: an integer
  in the range 0 ..< order.
\<close>

datatype group = Group (order: int) (n_bits: nat)

type_synonym wire = int

definition gen :: "group \<Rightarrow> int \<Rightarrow> wire" where
  "gen G n = n mod order G"

definition wire_add :: "group \<Rightarrow> wire \<Rightarrow> wire \<Rightarrow> wire" where
  "wire_add G a b = (a + b) mod order G"

definition wire_sub :: "group \<Rightarrow> wire \<Rightarrow> wire \<Rightarrow> wire" where
  "wire_sub G a b = (a - b) mod order G"

definition wire_mul :: "group \<Rightarrow> wire \<Rightarrow> wire \<Rightarrow> wire" where
  "wire_mul G a b = (a * b) mod order G"

definition in_group :: "group \<Rightarrow> wire \<Rightarrow> bool" where
  "in_group G w = (0 \<le> w \<and> w < order G)"

text \<open>
  Python's built-in sum over a list of wires: the accumulator starts at the integer 0
  and each entry is added to it with the wire addition.
\<close>

definition py_sum :: "group \<Rightarrow> wire list \<Rightarrow> wire" where
  "py_sum G ws = fold (\<lambda>w acc. wire_add G acc w) ws 0"

text \<open>
  A gate either returns a value or raises; on the way it registers constraints in the
  circuit context. The outcome of a gate is the pair of its result (\<open>Inl\<close> the
  exception) and the constraints it asserted, in the order of the calls, up to and
  including the one that raised.
\<close>

datatype error = ConstraintViolation | PreconditionFailure | IndexError

datatype constraint =
    AssertBit wire
  | AssertEqual "wire list" "wire list"
  | AssertGt wire wire nat

type_synonym 'a gate = "(error + 'a) \<times> constraint list"

definition ret :: "'a \<Rightarrow> 'a gate" where
  "ret a = (Inr a, [])"

definition raise :: "error \<Rightarrow> 'a gate" where
  "raise e = (Inl e, [])"

definition gate_bind :: "'a gate \<Rightarrow> ('a \<Rightarrow> 'b gate) \<Rightarrow> 'b gate" where
  "gate_bind m f =
     (case m of
        (Inl e, cs) \<Rightarrow> (Inl e, cs)
      | (Inr a, cs) \<Rightarrow> (case f a of (r, cs') \<Rightarrow> (r, cs @ cs')))"

text \<open>The two components of a gate's outcome.\<close>

abbreviation outcome :: "'a gate \<Rightarrow> error + 'a" where
  "outcome m \<equiv> fst m"

abbreviation asserted :: "'a gate \<Rightarrow> constraint list" where
  "asserted m \<equiv> snd m"

text \<open>A for loop whose body is a gate: the first exception ends the loop.\<close>

fun for_each :: "'a list \<Rightarrow> ('a \<Rightarrow> unit gate) \<Rightarrow> unit gate" where
  "for_each [] body = ret ()"
| "for_each (x # xs) body = gate_bind (body x) (\<lambda>_. for_each xs body)"

text \<open>A for loop that updates a local variable in every round.\<close>

fun for_acc :: "'a list \<Rightarrow> 's \<Rightarrow> ('a \<Rightarrow> 's \<Rightarrow> 's gate) \<Rightarrow> 's gate" where
  "for_acc [] s body = ret s"
| "for_acc (x # xs) s body = gate_bind (body x s) (\<lambda>s'. for_acc xs s' body)"

text \<open>A list comprehension whose elements are computed by a gate.\<close>

fun map_gate :: "('a \<Rightarrow> 'b gate) \<Rightarrow> 'a list \<Rightarrow> 'b list gate" where
  "map_gate f [] = ret []"
| "map_gate f (x # xs) =
     gate_bind (f x) (\<lambda>y. gate_bind (map_gate f xs) (\<lambda>ys. ret (y # ys)))"

text \<open>
  Python's \<open>xs[i]\<close> for an index that is not negative: IndexError out of range.
\<close>

definition item :: "'a list \<Rightarrow> nat \<Rightarrow> 'a gate" where
  "item xs i = (if i < length xs then ret (xs ! i) else raise IndexError)"

definition item2 :: "'a list list \<Rightarrow> nat \<Rightarrow> nat \<Rightarrow> 'a gate" where
  "item2 m i j = gate_bind (item m i) (\<lambda>row. item row j)"

section \<open>The collaborators of the gates\<close>

text \<open>
  Modelled from the spec: src/gates/assertgates.py is not among the source files. The
  contract of assert_bit(w): "Constrains w to 0 or 1; violation is a constraint failure."
\<close>

definition assert_bit :: "wire \<Rightarrow> unit gate" where
  "assert_bit w =
     (if w = 0 \<or> w = 1 then Inr () else Inl ConstraintViolation, [AssertBit w])"

text \<open>
  Modelled from the spec: the contract of assert_equal(group, seqA, seqB) of the absent
  src/gates/assertgates.py: "Constrains elementwise equality of two equal-length
  sequences." For two sequences of different lengths the spec describes one call, that
  of assert_single_vote on the ballot and the list [gen(1)]: "the sum of all entries
  must equal exactly gen(1)" (section 4.3); there the sums of the two sequences, taken
  in the group, are compared.
\<close>

definition assert_equal :: "group \<Rightarrow> wire list \<Rightarrow> wire list \<Rightarrow> unit gate" where
  "assert_equal G seqA seqB =
     (if length seqA = length seqB
      then (if list_all2 (=) seqA seqB then Inr () else Inl ConstraintViolation)
      else (if py_sum G seqA = py_sum G seqB then Inr () else Inl ConstraintViolation),
      [AssertEqual seqA seqB])"

text \<open>A value fits in a number of bits.\<close>

definition fits :: "wire \<Rightarrow> nat \<Rightarrow> bool" where
  "fits w bits = (0 \<le> w \<and> w < 2 ^ bits)"

text \<open>
  The order that the comparison gates of the absent src/gates/assertgates.py and
  src/gates/comparison.py decide is a parameter of the gates that call them. The
  contracts of the spec word it as "bound > value" and "a > b"; the docstring of
  assert_multi_vote words the same assertion as "at most". Both readings are defined.
\<close>

type_synonym comparison = "wire \<Rightarrow> wire \<Rightarrow> bool"

definition strictly_greater :: comparison where
  "strictly_greater a b = (b < a)"

definition at_least :: comparison where
  "at_least a b = (b \<le> a)"

text \<open>
  Modelled from the spec: the contract of assert_gt(group, bound, value, bits) of the
  absent src/gates/assertgates.py: "Constrains bound > value, valid only when value fits
  in bits bits." Precondition failures of the comparison collaborators propagate
  unchanged (section 7 of the spec).
\<close>

definition assert_gt :: "comparison \<Rightarrow> group \<Rightarrow> wire \<Rightarrow> wire \<Rightarrow> nat \<Rightarrow> unit gate" where
  "assert_gt cmp G bound val bits =
     (if \<not> fits val bits then Inl PreconditionFailure
      else if cmp bound val then Inr ()
      else Inl ConstraintViolation, [AssertGt bound val bits])"

text \<open>
  Modelled from the spec: the contract of eq(group, a, b) of the absent
  src/gates/comparison.py: "Returns a binary wire, 1 iff a == b." It asserts nothing.
\<close>

definition eq :: "group \<Rightarrow> wire \<Rightarrow> wire \<Rightarrow> wire" where
  "eq G a b = (if a = b then gen G 1 else gen G 0)"

text \<open>
  Modelled from the spec: the contract of gt(group, a, b, bits) of the absent
  src/gates/comparison.py: "Returns a binary wire, 1 iff a > b, valid only when both
  operands fit in bits bits."
\<close>

definition gt :: "comparison \<Rightarrow> group \<Rightarrow> wire \<Rightarrow> wire \<Rightarrow> nat \<Rightarrow> wire gate" where
  "gt cmp G a b bits =
     (if fits a bits \<and> fits b bits then ret (if cmp a b then gen G 1 else gen G 0)
      else raise PreconditionFailure)"

text \<open>
  Modelled from the spec: the contract of and_gate(group, bits) of the absent
  src/gates/bits.py: "Returns a binary wire equal to the logical AND of a sequence of
  binary wires (valid because inputs are 0/1, so AND is realizable as their product)."
\<close>

definition and_gate :: "group \<Rightarrow> wire list \<Rightarrow> wire" where
  "and_gate G bits = fold (\<lambda>b acc. wire_mul G acc b) bits (gen G 1)"

text \<open>
  Modelled from the spec: the contract of split(group, x, bit_length) of the absent
  src/gates/bits.py: "Returns an ordered sequence of binary wires, most-significant-bit
  first, representing x; undefined if x does not fit in bit_length bits." Without a bit
  length the group's native bit capacity is used.
\<close>

definition bits_msb :: "nat \<Rightarrow> int \<Rightarrow> wire list" where
  "bits_msb n x = map (\<lambda>i. (x div 2 ^ (n - 1 - i)) mod 2) [0..<n]"

definition split :: "group \<Rightarrow> wire \<Rightarrow> nat option \<Rightarrow> wire list gate" where
  "split G x bit_length =
     (let n = (case bit_length of None \<Rightarrow> n_bits G | Some k \<Rightarrow> k)
      in if fits x n then ret (bits_msb n x) else raise PreconditionFailure)"

text \<open>The number a sequence of bits represents, most significant bit first.\<close>

definition bits_value :: "wire list \<Rightarrow> int" where
  "bits_value bs = fold (\<lambda>b acc. 2 * acc + b) bs 0"

text \<open>
  The curve arithmetic of the absent src/gates/ecsmontgomery.py is a parameter of the
  encryption gates: exponentiation of a point by a scalar wire, exponentiation by a
  sequence of bits, and addition of two points, each over the group and the curve
  parameters A and B.
\<close>

record 'p montgomery =
  exponent_homogeneous_point :: "group \<Rightarrow> wire \<Rightarrow> wire \<Rightarrow> 'p \<Rightarrow> wire \<Rightarrow> 'p"
  exponent_homogeneous_point_bit_exponent :: "group \<Rightarrow> wire \<Rightarrow> wire \<Rightarrow> 'p \<Rightarrow> wire list \<Rightarrow> 'p"
  add_homogeneous_points :: "group \<Rightarrow> wire \<Rightarrow> wire \<Rightarrow> 'p \<Rightarrow> 'p \<Rightarrow> 'p"

text \<open>
  Modelled from the spec: the contract of the two exponentiations of the absent
  src/gates/ecsmontgomery.py: "Scalar multiplication of a curve point by a scalar wire or
  a bit-sequence, respectively". Both compute the same multiple of the point when the
  bits, most significant first, represent the scalar.
\<close>

definition scalar_multiplication :: "'p montgomery \<Rightarrow> group \<Rightarrow> bool" where
  "scalar_multiplication M G =
     (\<forall>A B p bs. list_all (\<lambda>b. b = 0 \<or> b = 1) bs \<and> in_group G (bits_value bs) \<longrightarrow>
        exponent_homogeneous_point_bit_exponent M G A B p bs =
        exponent_homogeneous_point M G A B p (bits_value bs))"

section \<open>src/gates/listgates.py\<close>

definition get_n_occurences :: "group \<Rightarrow> wire list \<Rightarrow> wire \<Rightarrow> wire" where
  "get_n_occurences G wires w =
     fold (\<lambda>wire_in_list n_occurences.
             (let ind_eq = eq G wire_in_list w in wire_add G n_occurences ind_eq))
          wires (gen G 0)"

section \<open>src/gates/voting/ballots.py\<close>

definition assert_single_vote :: "group \<Rightarrow> wire list \<Rightarrow> unit gate" where
  "assert_single_vote G ballot =
     gate_bind (for_each ballot assert_bit)
       (\<lambda>_. assert_equal G ballot [gen G 1])"

text \<open>
  The parameters max_choices, max_votes_per_candidate and totalbits, whose default is
  None, are options; bits, whose default is 1, is given by the caller.
\<close>

definition assert_multi_vote ::
  "comparison \<Rightarrow> group \<Rightarrow> wire list \<Rightarrow> wire option \<Rightarrow> nat \<Rightarrow> wire option \<Rightarrow> nat option
     \<Rightarrow> unit gate" where
  "assert_multi_vote cmp G ballot max_choices bits max_votes_per_candidate totalbits =
     (let max_votes = (case max_votes_per_candidate of None \<Rightarrow> gen G 1 | Some v \<Rightarrow> v);
          total = (case totalbits of None \<Rightarrow> length ballot | Some t \<Rightarrow> t)
      in gate_bind (for_each ballot (\<lambda>w. assert_gt cmp G max_votes w bits))
           (\<lambda>_. case max_choices of
                   None \<Rightarrow> ret ()
                 | Some choices \<Rightarrow>
                     (let n_choices = py_sum G ballot
                      in assert_gt cmp G choices n_choices total)))"

definition assert_multi_vote_with_rules ::
  "comparison \<Rightarrow> group \<Rightarrow> wire list \<Rightarrow> wire option \<Rightarrow> nat \<Rightarrow> wire option \<Rightarrow> nat option
     \<Rightarrow> unit gate" where
  "assert_multi_vote_with_rules cmp G ballot max_choices bits max_votes_per_candidate
       totalbits =
     gate_bind
       (assert_multi_vote cmp G ballot max_choices bits max_votes_per_candidate totalbits)
       (\<lambda>_. if length ballot > 2
             then assert_equal G [wire_mul G (ballot ! 1) (ballot ! 2)] [ballot ! 0]
             else ret ())"

definition assert_line_vote_ballot :: "group \<Rightarrow> wire list \<Rightarrow> unit gate" where
  "assert_line_vote_ballot G ballot =
     gate_bind (item ballot 0) (\<lambda>first.
     gate_bind (assert_bit first) (\<lambda>_.
     gate_bind
       (for_acc [0..<length ballot - 1] first (\<lambda>idx indicator_bit_up.
          gate_bind (item ballot (idx + 1)) (\<lambda>nxt.
          gate_bind (assert_bit nxt) (\<lambda>_.
          gate_bind (item ballot idx) (\<lambda>cur.
          ret (wire_add G indicator_bit_up (wire_mul G (wire_sub G nxt cur) nxt)))))))
       (\<lambda>indicator_bit_up. assert_bit indicator_bit_up)))"

definition assert_pointlist_borda_ballot ::
  "group \<Rightarrow> wire list \<Rightarrow> wire list \<Rightarrow> unit gate" where
  "assert_pointlist_borda_ballot G ballot ordered_points =
     (let expected_zeros = gen G (int (length ballot) - int (length ordered_points));
          num_zeros = get_n_occurences G ballot (gen G 0)
      in gate_bind (assert_equal G [expected_zeros] [num_zeros])
           (\<lambda>_. for_each ordered_points (\<lambda>point.
                   (let n_occ = get_n_occurences G ballot point
                    in assert_equal G [n_occ] [gen G 1]))))"

text \<open>The opponents of candidate i: the entries of the ranking at the other positions.\<close>

definition others :: "nat \<Rightarrow> wire list \<Rightarrow> wire list" where
  "others i ranking = map snd (filter (\<lambda>(j, comp_val). j \<noteq> i) (enumerate 0 ranking))"

definition compute_borda_tournament_style_ballot ::
  "comparison \<Rightarrow> group \<Rightarrow> wire list \<Rightarrow> nat \<Rightarrow> wire list gate" where
  "compute_borda_tournament_style_ballot cmp G ranking bits =
     map_gate (\<lambda>(i, ranking_val).
         gate_bind
           (map_gate (\<lambda>comp_val. gt cmp G (wire_sub G ranking_val 1) comp_val bits)
              (others i ranking))
           (\<lambda>gts.
              (let n_truely_greater = py_sum G gts;
                   n_eq = py_sum G (map (\<lambda>comp_val. eq G ranking_val comp_val)
                                      (others i ranking))
               in ret (wire_add G (wire_mul G 2 n_truely_greater) n_eq))))
       (enumerate 0 ranking)"

text \<open>itertools.product(range(n), range(n), range(n)): the last index runs fastest.\<close>

definition product3 :: "nat \<Rightarrow> (nat \<times> nat \<times> nat) list" where
  "product3 n = List.product [0..<n] (List.product [0..<n] [0..<n])"

definition assert_condorcet_ballot :: "group \<Rightarrow> wire list list \<Rightarrow> unit gate" where
  "assert_condorcet_ballot G ballot =
     gate_bind
       (for_each (enumerate 0 ballot) (\<lambda>(i, row).
          for_each (enumerate 0 row) (\<lambda>(j, entry).
            if i = j then ret () else assert_bit entry)))
       (\<lambda>_. for_each (product3 (length ballot)) (\<lambda>(i, j, k).
          if i = j \<or> i = k \<or> j = k then ret ()
          else
            gate_bind (item2 ballot i j) (\<lambda>value_i_j.
            gate_bind (item2 ballot j i) (\<lambda>value_j_i.
            gate_bind (item2 ballot j i) (\<lambda>b_j_i.
            gate_bind (item2 ballot k j) (\<lambda>b_k_j.
            gate_bind (item2 ballot k i) (\<lambda>b_k_i.
              (let check_matrix_i_j = wire_sub G (gen G 1) b_j_i;
                   check_matrix_j_k = wire_sub G (gen G 1) b_k_j;
                   check_matrix_i_k = wire_sub G (gen G 1) b_k_i
               in gate_bind (assert_bit (py_sum G [value_i_j, value_j_i])) (\<lambda>_.
                    (let ind_false = and_gate G [check_matrix_i_j, check_matrix_j_k,
                                                  wire_sub G 1 check_matrix_i_k]
                     in assert_equal G [ind_false] [gen G 0]))))))))))"

definition assert_majority_judgment_ballot :: "group \<Rightarrow> wire list list \<Rightarrow> unit gate" where
  "assert_majority_judgment_ballot G ballot =
     for_each ballot (\<lambda>row. assert_single_vote G row)"

text \<open>
  A matrix ballot encodes a strict total order of its candidates: it is square, every
  entry off the diagonal is 0 or 1, of two different candidates exactly one is
  preferred to the other, and the preference is transitive.
\<close>

definition strict_total_order :: "wire list list \<Rightarrow> bool" where
  "strict_total_order m =
     (let n = length m; I = set [0..<n] in
        list_all (\<lambda>row. length row = n) m \<and>
        (\<forall>i\<in>I. \<forall>j\<in>I. i \<noteq> j \<longrightarrow>
           (m ! i ! j = 0 \<or> m ! i ! j = 1) \<and> m ! i ! j + m ! j ! i = 1) \<and>
        (\<forall>i\<in>I. \<forall>j\<in>I. \<forall>k\<in>I.
           i \<noteq> j \<and> j \<noteq> k \<and> i \<noteq> k \<and> m ! i ! j = 1 \<and> m ! j ! k = 1 \<longrightarrow> m ! i ! k = 1))"

text \<open>
  The number of places in a ballot where a 1 follows a 0, the entry before the ballot
  being \<open>prev\<close>. With \<open>prev = 0\<close> it is the number of runs of ones of a binary ballot.
\<close>

fun rises :: "wire \<Rightarrow> wire list \<Rightarrow> nat" where
  "rises prev [] = 0"
| "rises prev (x # xs) = (if prev = 0 \<and> x = 1 then 1 else 0) + rises x xs"

text \<open>
  The ones of a ballot form a single contiguous run, located anywhere, or there is no
  one at all: zeros, then ones, then zeros.
\<close>

definition contiguous_ones :: "wire list \<Rightarrow> bool" where
  "contiguous_ones ballot =
     (\<exists>a b c. ballot = replicate a 0 @ replicate b 1 @ replicate c 0)"

text \<open>
  The scores of a round-robin tournament among candidates with pairwise distinct
  values: each candidate scores two points for every candidate with a smaller value.
  The scores are wires.
\<close>

definition tournament_scores :: "group \<Rightarrow> wire list \<Rightarrow> wire list" where
  "tournament_scores G ranking =
     map (\<lambda>x. gen G (2 * int (length (filter (\<lambda>y. y < x) ranking)))) ranking"

section \<open>src/gates/expelgamalgates.py\<close>

definition exponential_elgamal_over_montgomery_curve_bit_randomness ::
  "'p montgomery \<Rightarrow> group \<Rightarrow> wire \<Rightarrow> wire \<Rightarrow> 'p \<Rightarrow> 'p \<Rightarrow> wire \<Rightarrow> wire list \<Rightarrow> nat option
     \<Rightarrow> ('p \<times> 'p) gate" where
  "exponential_elgamal_over_montgomery_curve_bit_randomness M G A B g pk x r_bits n_max_bits_x =
     gate_bind (split G x n_max_bits_x) (\<lambda>x_bits.
       (let gx = exponent_homogeneous_point_bit_exponent M G A B g x_bits;
            pkr = exponent_homogeneous_point_bit_exponent M G A B pk r_bits;
            gr = exponent_homogeneous_point_bit_exponent M G A B g r_bits;
            c = (gr, add_homogeneous_points M G A B gx pkr)
        in ret c))"

definition exponential_elgamal_over_montgomery_curve ::
  "'p montgomery \<Rightarrow> group \<Rightarrow> wire \<Rightarrow> wire \<Rightarrow> 'p \<Rightarrow> 'p \<Rightarrow> wire \<Rightarrow> wire \<Rightarrow> ('p \<times> 'p) gate" where
  "exponential_elgamal_over_montgomery_curve M G A B g pk x r =
     (let gx = exponent_homogeneous_point M G A B g x;
          pkr = exponent_homogeneous_point M G A B pk r;
          gr = exponent_homogeneous_point M G A B g r;
          c = (gr, add_homogeneous_points M G A B gx pkr)
      in ret c)"

section \<open>Facts about gates and loops\<close>

lemma gate_bind_ret [simp]: "gate_bind (ret a) f = f a"
  by (simp add: gate_bind_def ret_def split: prod.splits)

lemma gate_bind_raise [simp]: "gate_bind (raise e) f = raise e"
  by (simp add: gate_bind_def raise_def)

lemma fst_ret [simp]: "fst (ret a) = Inr a" and snd_ret [simp]: "snd (ret a) = []"
  by (simp_all add: ret_def)

lemma fst_raise [simp]: "fst (raise e) = Inl e" and snd_raise [simp]: "snd (raise e) = []"
  by (simp_all add: raise_def)

lemma fst_gate_bind:
  "fst (gate_bind m f) = (case fst m of Inl e \<Rightarrow> Inl e | Inr a \<Rightarrow> fst (f a))"
  by (simp add: gate_bind_def split: prod.splits sum.splits)

lemma snd_gate_bind:
  "snd (gate_bind m f) = (case fst m of Inl e \<Rightarrow> snd m | Inr a \<Rightarrow> snd m @ snd (f a))"
  by (simp add: gate_bind_def split: prod.splits sum.splits)

lemma for_each_succeeds:
  "(fst (for_each xs body) = Inr ()) = (\<forall>x\<in>set xs. fst (body x) = Inr ())"
  by (induction xs) (auto simp: fst_gate_bind split: sum.splits)

lemma for_each_constraints:
  "\<forall>x\<in>set xs. fst (body x) = Inr () \<Longrightarrow>
   snd (for_each xs body) = concat (map (\<lambda>x. snd (body x)) xs)"
  by (induction xs) (auto simp: snd_gate_bind split: sum.splits)

lemma for_each_failure:
  "fst (for_each xs body) = Inl e \<Longrightarrow> \<exists>x\<in>set xs. fst (body x) = Inl e"
  by (induction xs) (auto simp: fst_gate_bind split: sum.splits)

lemma fst_assert_equal_single:
  "fst (assert_equal G [a] [b]) = (if a = b then Inr () else Inl ConstraintViolation)"
  by (simp add: assert_equal_def)

lemma snd_assert_equal: "snd (assert_equal G xs ys) = [AssertEqual xs ys]"
  by (simp add: assert_equal_def)

lemma fst_assert_bit:
  "fst (assert_bit w) = (if w = 0 \<or> w = 1 then Inr () else Inl ConstraintViolation)"
  by (simp add: assert_bit_def)

lemma snd_assert_bit: "snd (assert_bit w) = [AssertBit w]"
  by (simp add: assert_bit_def)

lemma occurrences_fold:
  "fold (\<lambda>v acc. wire_add G acc (eq G v w)) ws (a mod order G) =
   (a + int (length (filter (\<lambda>v. v = w) ws))) mod order G"
proof (induction ws arbitrary: a)
  case Nil
  show ?case by simp
next
  case (Cons v ws)
  have step: "wire_add G (a mod order G) (eq G v w) =
              (a + (if v = w then 1 else 0)) mod order G"
    by (simp add: wire_add_def eq_def gen_def mod_simps)
  show ?case
    using Cons.IH [of "a + (if v = w then 1 else 0)"]
    by (simp add: step add.assoc)
qed

lemma get_n_occurences_count:
  "get_n_occurences G ws w = gen G (int (length (filter (\<lambda>v. v = w) ws)))"
  using occurrences_fold [of G w ws 0]
  by (simp add: get_n_occurences_def gen_def)

lemma sum_indicators:
  "gen G (sum_list (map (\<lambda>v. eq G v w) ws)) = gen G (int (length (filter (\<lambda>v. v = w) ws)))"
proof (induction ws)
  case Nil
  show ?case by simp
next
  case (Cons v ws)
  have "(eq G v w + sum_list (map (\<lambda>v. eq G v w) ws)) mod order G =
        ((if v = w then 1 else 0) + int (length (filter (\<lambda>v. v = w) ws))) mod order G"
    using Cons.IH
    by (simp add: eq_def gen_def mod_simps) (metis mod_add_right_eq)
  then show ?case by (simp add: gen_def)
qed

lemma bits_value_snoc: "bits_value (bs @ [b]) = 2 * bits_value bs + b"
  by (simp add: bits_value_def)

lemma bits_msb_Suc: "bits_msb (Suc n) x = bits_msb n (x div 2) @ [x mod 2]"
proof -
  have "(x div 2) div 2 ^ (n - 1 - i) = x div 2 ^ (n - i)" if "i < n" for i
  proof -
    from that have "(2::int) * 2 ^ (n - 1 - i) = 2 ^ (n - i)"
      by (metis Suc_diff_Suc diff_Suc_eq_diff_pred power_Suc diff_commute diff_Suc_1)
    moreover have "x div (2 * 2 ^ (n - 1 - i)) = x div 2 div 2 ^ (n - 1 - i)"
      by (rule zdiv_zmult2_eq) simp
    ultimately show ?thesis by simp
  qed
  then show ?thesis
    by (simp add: bits_msb_def)
qed

lemma bits_value_bits_msb: "bits_value (bits_msb n x) = x mod 2 ^ n"
proof (induction n arbitrary: x)
  case 0
  show ?case by (simp add: bits_msb_def bits_value_def)
next
  case (Suc n)
  have "2 * ((x div 2) mod 2 ^ n) + x mod 2 = x mod (2 * 2 ^ n)"
    using zmod_zmult2_eq [of "2 ^ n" x 2] by simp
  then show ?case
    by (simp add: bits_msb_Suc bits_value_snoc Suc.IH)
qed

lemma bits_msb_binary: "list_all (\<lambda>b. b = 0 \<or> b = 1) (bits_msb n x)"
  by (auto simp: bits_msb_def list_all_iff)

lemma bits_value_fits: "fits x n \<Longrightarrow> bits_value (bits_msb n x) = x"
  by (simp add: bits_value_bits_msb fits_def)

lemma item_in_range: "i < length xs \<Longrightarrow> item xs i = ret (xs ! i)"
  by (simp add: item_def)

lemma item2_in_range:
  "i < length m \<Longrightarrow> j < length (m ! i) \<Longrightarrow> item2 m i j = ret (m ! i ! j)"
  by (simp add: item2_def item_def)

lemma py_sum_pair: "py_sum G [a, b] = (a + b) mod order G"
  by (simp add: py_sum_def wire_add_def mod_simps)

lemma and_gate_three: "and_gate G [a, b, c] = (a * b * c) mod order G"
  by (simp add: and_gate_def wire_mul_def gen_def mod_simps)

lemma set_product3:
  "(i, j, k) \<in> set (product3 n) \<longleftrightarrow> i < n \<and> j < n \<and> k < n"
  by (auto simp: product3_def)

lemma one_minus_wire: "wire_sub G (gen G 1) b = (1 - b) mod order G"
  by (simp add: wire_sub_def gen_def mod_diff_left_eq)

lemma one_minus_one_minus: "wire_sub G 1 ((1 - b) mod order G) = b mod order G"
  by (simp add: wire_sub_def mod_diff_right_eq)

lemma mult3_mod:
  "((x mod p) * (y mod p) * (z mod p)) mod p = (x * y * z) mod (p::int)"
proof -
  have "(x mod p * (y mod p)) mod p = (x * y) mod p"
    by (rule mod_mult_eq)
  moreover have "(z mod p) mod p = z mod p"
    by simp
  ultimately show ?thesis
    by (rule mod_mult_cong)
qed

lemma condorcet_triple_value:
  "and_gate G [wire_sub G (gen G 1) b_j_i, wire_sub G (gen G 1) b_k_j,
               wire_sub G 1 (wire_sub G (gen G 1) b_k_i)] =
   ((1 - b_j_i) * (1 - b_k_j) * b_k_i) mod order G"
  by (simp only: one_minus_wire one_minus_one_minus and_gate_three mult3_mod)

lemma for_each_first_failure:
  "\<forall>x\<in>set xs. fst (body x) = Inr () \<Longrightarrow> fst (body y) = Inl e \<Longrightarrow>
   fst (for_each (xs @ y # ys) body) = Inl e"
  by (induction xs) (auto simp: fst_gate_bind split: sum.splits)

lemma product3_three:
  "product3 3 =
     [(0, 0, 0), (0, 0, 1), (0, 0, 2), (0, 1, 0), (0, 1, 1)] @ (0, 1, 2) #
     [(0, 2, 0), (0, 2, 1), (0, 2, 2),
      (1, 0, 0), (1, 0, 1), (1, 0, 2), (1, 1, 0), (1, 1, 1), (1, 1, 2),
      (1, 2, 0), (1, 2, 1), (1, 2, 2),
      (2, 0, 0), (2, 0, 1), (2, 0, 2), (2, 1, 0), (2, 1, 1), (2, 1, 2),
      (2, 2, 0), (2, 2, 1), (2, 2, 2)]"
  by code_simp

text \<open>The body of the second loop of assert_condorcet_ballot.\<close>

lemma condorcet_triple_body:
  assumes "i < length m" "j < length m" "k < length m"
    and "\<forall>row\<in>set m. length row = length m"
    and "i \<noteq> j" "i \<noteq> k" "j \<noteq> k"
  shows "fst (gate_bind (item2 m i j) (\<lambda>value_i_j.
            gate_bind (item2 m j i) (\<lambda>value_j_i.
            gate_bind (item2 m j i) (\<lambda>b_j_i.
            gate_bind (item2 m k j) (\<lambda>b_k_j.
            gate_bind (item2 m k i) (\<lambda>b_k_i.
              (let check_matrix_i_j = wire_sub G (gen G 1) b_j_i;
                   check_matrix_j_k = wire_sub G (gen G 1) b_k_j;
                   check_matrix_i_k = wire_sub G (gen G 1) b_k_i
               in gate_bind (assert_bit (py_sum G [value_i_j, value_j_i])) (\<lambda>_.
                    (let ind_false = and_gate G [check_matrix_i_j, check_matrix_j_k,
                                                  wire_sub G 1 check_matrix_i_k]
                     in assert_equal G [ind_false] [gen G 0]))))))))) =
         (if (m ! i ! j + m ! j ! i) mod order G = 0 \<or> (m ! i ! j + m ! j ! i) mod order G = 1
          then if ((1 - m ! j ! i) * (1 - m ! k ! j) * (m ! k ! i)) mod order G = gen G 0
               then Inr () else Inl ConstraintViolation
          else Inl ConstraintViolation)"
proof -
  from assms have len: "length (m ! i) = length m" "length (m ! j) = length m"
    "length (m ! k) = length m"
    by simp_all
  with assms have reads: "item2 m i j = ret (m ! i ! j)" "item2 m j i = ret (m ! j ! i)"
    "item2 m k j = ret (m ! k ! j)" "item2 m k i = ret (m ! k ! i)"
    by (simp_all add: item2_in_range)
  show ?thesis
    by (simp add: reads Let_def fst_gate_bind fst_assert_bit fst_assert_equal_single
        py_sum_pair condorcet_triple_value)
qed

lemma two_loops_succeed:
  "(fst (gate_bind (for_each xs b1) (\<lambda>_. for_each ys b2)) = Inr ()) =
   ((\<forall>x\<in>set xs. fst (b1 x) = Inr ()) \<and> (\<forall>y\<in>set ys. fst (b2 y) = Inr ()))"
  by (cases "fst (for_each xs b1)") (simp_all add: fst_gate_bind for_each_succeeds [symmetric])

lemma sto_rows: "strict_total_order m \<Longrightarrow> \<forall>row\<in>set m. length row = length m"
  unfolding strict_total_order_def Let_def list_all_iff by (elim conjE)

lemma sto_pair:
  assumes sto: "strict_total_order m" and "i < length m" "j < length m" "i \<noteq> j"
  shows "(m ! i ! j = 0 \<or> m ! i ! j = 1) \<and> m ! i ! j + m ! j ! i = 1"
proof -
  have i: "i \<in> set [0..<length m]" and j: "j \<in> set [0..<length m]"
    using assms by simp_all
  from sto have "\<forall>i\<in>set [0..<length m]. \<forall>j\<in>set [0..<length m]. i \<noteq> j \<longrightarrow>
           (m ! i ! j = 0 \<or> m ! i ! j = 1) \<and> m ! i ! j + m ! j ! i = 1"
    unfolding strict_total_order_def Let_def by (elim conjE)
  with i j \<open>i \<noteq> j\<close> show ?thesis by blast
qed

lemma sto_trans:
  assumes sto: "strict_total_order m" and "i < length m" "j < length m" "k < length m"
    and "i \<noteq> j" "j \<noteq> k" "i \<noteq> k" and "m ! i ! j = 1" "m ! j ! k = 1"
  shows "m ! i ! k = 1"
proof -
  have i: "i \<in> set [0..<length m]" and j: "j \<in> set [0..<length m]"
    and k: "k \<in> set [0..<length m]"
    using assms by simp_all
  from sto have "\<forall>i\<in>set [0..<length m]. \<forall>j\<in>set [0..<length m]. \<forall>k\<in>set [0..<length m].
           i \<noteq> j \<and> j \<noteq> k \<and> i \<noteq> k \<and> m ! i ! j = 1 \<and> m ! j ! k = 1 \<longrightarrow> m ! i ! k = 1"
    unfolding strict_total_order_def Let_def by (elim conjE)
  with i j k assms(5-9) show ?thesis by blast
qed

lemma condorcet_triple_ok:
  assumes order: "1 < order G" and sto: "strict_total_order m"
    and range: "i < length m" "j < length m" "k < length m"
    and distinct: "\<not> (i = j \<or> i = k \<or> j = k)"
  shows "fst (gate_bind (item2 m i j) (\<lambda>value_i_j.
            gate_bind (item2 m j i) (\<lambda>value_j_i.
            gate_bind (item2 m j i) (\<lambda>b_j_i.
            gate_bind (item2 m k j) (\<lambda>b_k_j.
            gate_bind (item2 m k i) (\<lambda>b_k_i.
              (let check_matrix_i_j = wire_sub G (gen G 1) b_j_i;
                   check_matrix_j_k = wire_sub G (gen G 1) b_k_j;
                   check_matrix_i_k = wire_sub G (gen G 1) b_k_i
               in gate_bind (assert_bit (py_sum G [value_i_j, value_j_i])) (\<lambda>_.
                    (let ind_false = and_gate G [check_matrix_i_j, check_matrix_j_k,
                                                  wire_sub G 1 check_matrix_i_k]
                     in assert_equal G [ind_false] [gen G 0]))))))))) = Inr ()"
proof -
  from distinct have d: "i \<noteq> j" "i \<noteq> k" "j \<noteq> k" by auto
  have pair: "m ! i ! j + m ! j ! i = 1"
    using sto_pair [OF sto range(1) range(2) d(1)] by simp
  have zero: "(1 - m ! j ! i) * (1 - m ! k ! j) * (m ! k ! i) = 0"
  proof (cases "m ! k ! i = 1")
    case False
    with sto_pair [OF sto range(3) range(1)] d show ?thesis by auto
  next
    case k_beats_i: True
    show ?thesis
    proof (cases "m ! j ! i = 1")
      case True
      then show ?thesis by simp
    next
      case False
      with sto_pair [OF sto range(2) range(1)] sto_pair [OF sto range(1) range(2)] d
      have "m ! i ! j = 1" by auto
      with k_beats_i have "m ! k ! j = 1"
        using sto_trans [OF sto range(3) range(1) range(2)] d by auto
      then show ?thesis by simp
    qed
  qed
  show ?thesis
    unfolding condorcet_triple_body [OF range sto_rows [OF sto] d]
    using order by (simp add: pair zero gen_def)
qed

lemma condorcet_entries_ok:
  assumes sto: "strict_total_order m" and x: "x \<in> set (enumerate 0 m)"
  shows "fst ((\<lambda>(i, row). for_each (enumerate 0 row) (\<lambda>(j, entry).
            if i = j then ret () else assert_bit entry)) x) = Inr ()"
proof -
  obtain i row where [simp]: "x = (i, row)" by (cases x)
  from x have i: "i < length m" and row: "row = m ! i"
    by (simp_all add: in_set_enumerate_eq)
  from i row sto_rows [OF sto] have len: "length row = length m"
    by simp
  have "fst (if i = j then ret () else assert_bit entry) = Inr ()"
    if "(j, entry) \<in> set (enumerate 0 row)" for j entry
  proof (cases "i = j")
    case True
    then show ?thesis by simp
  next
    case False
    from that len have j: "j < length m" and entry: "entry = m ! i ! j"
      by (simp_all add: in_set_enumerate_eq row)
    from sto_pair [OF sto i j False] entry have "entry = 0 \<or> entry = 1"
      by simp
    with False show ?thesis by (simp add: fst_assert_bit)
  qed
  then show ?thesis
    by (auto simp: for_each_succeeds)
qed

lemma condorcet_accepts_total_order:
  assumes order: "1 < order G" and sto: "strict_total_order m"
  shows "fst (assert_condorcet_ballot G m) = Inr ()"
  unfolding assert_condorcet_ballot_def two_loops_succeed
  apply (intro conjI ballI)
  subgoal for x
    by (rule condorcet_entries_ok [OF sto])
  subgoal for y
    apply (cases y)
    subgoal for i j k
      apply (simp only: prod.case set_product3)
      apply (cases "i = j \<or> i = k \<or> j = k")
       apply (simp only: if_True fst_ret)
      apply (simp only: if_False)
      apply (rule condorcet_triple_ok [OF order sto])
         apply blast
        apply blast
       apply blast
      apply assumption
      done
    done
  done

lemma condorcet_rejects_cycle:
  assumes order: "1 < order G"
  shows "fst (assert_condorcet_ballot G [[d0, 1, 0], [0, d1, 1], [1, 0, d2]]) =
         Inl ConstraintViolation"
proof -
  let ?m = "[[d0, 1, 0], [0, d1, 1], [1, 0, d2]]"
  have first: "fst (for_each (enumerate 0 ?m) (\<lambda>(i, row).
                  for_each (enumerate 0 row) (\<lambda>(j, entry).
                    if i = j then ret () else assert_bit entry))) = Inr ()"
    by (simp add: fst_gate_bind fst_assert_bit)
  have len: "length ?m = 3" by simp
  have rows: "\<forall>row\<in>set ?m. length row = length ?m" by simp
  show ?thesis
    unfolding assert_condorcet_ballot_def fst_gate_bind
    apply (subst first)
    apply (simp only: len sum.case product3_three)
    apply (rule for_each_first_failure)
     apply simp
    apply (simp only: prod.case)
    apply (subst if_not_P)
     apply simp
    apply (subst condorcet_triple_body)
           apply (simp_all only: len rows)
          apply simp_all
    using order apply (simp add: gen_def)
    done
qed

lemma gate_bind_assoc:
  "gate_bind (gate_bind m f) h = gate_bind m (\<lambda>a. gate_bind (f a) h)"
  by (simp add: gate_bind_def split: prod.splits sum.splits)

lemma for_acc_append:
  "for_acc (xs @ ys) s body = gate_bind (for_acc xs s body) (\<lambda>s'. for_acc ys s' body)"
  by (induction xs arbitrary: s) (simp_all add: gate_bind_assoc)

lemma rises_snoc:
  "xs \<noteq> [] \<Longrightarrow>
   rises prev (xs @ [y]) = rises prev xs + (if last xs = 0 \<and> y = 1 then 1 else 0)"
  by (induction xs arbitrary: prev) (auto split: if_splits)

lemma rises_bound:
  "rises prev xs \<le> (length xs + (if prev = 0 then 1 else 0)) div 2"
proof (induction xs arbitrary: prev)
  case Nil
  show ?case by simp
next
  case (Cons x xs)
  from Cons.IH [of x] show ?case
    by (cases "x = 0") (auto split: if_splits)
qed

lemma rises_zeros: "rises prev (replicate c 0) = 0"
  by (induction c arbitrary: prev) simp_all

lemma rises_zeros_append: "rises 0 (replicate a 0 @ ys) = rises 0 ys"
  by (induction a) simp_all

lemma rises_ones_append: "rises 1 (replicate b 1 @ zs) = rises 1 zs"
  by (induction b) simp_all

lemma rises_contiguous: "rises 0 (replicate a 0 @ replicate b 1 @ replicate c 0) \<le> 1"
  by (cases b) (simp_all add: rises_zeros_append rises_ones_append rises_zeros)

lemma no_rise_all_zero:
  "\<forall>b\<in>set xs. b = 0 \<or> b = 1 \<Longrightarrow> rises 0 xs = 0 \<Longrightarrow> xs = replicate (length xs) 0"
  by (induction xs) (auto split: if_splits)

lemma no_rise_after_one:
  "\<forall>b\<in>set xs. b = 0 \<or> b = 1 \<Longrightarrow> rises 1 xs = 0 \<Longrightarrow>
   \<exists>b c. xs = replicate b 1 @ replicate c 0"
proof (induction xs)
  case Nil
  show ?case by simp
next
  case (Cons x xs)
  show ?case
  proof (cases "x = 1")
    case True
    with Cons obtain b c where "xs = replicate b 1 @ replicate c 0" by auto
    with True have "x # xs = replicate (Suc b) 1 @ replicate c 0" by simp
    then show ?thesis by blast
  next
    case False
    with Cons.prems have x: "x = 0" and "rises 0 xs = 0" by auto
    with Cons.prems no_rise_all_zero [of xs] have "xs = replicate (length xs) 0" by simp
    with x have "x # xs = replicate 0 1 @ replicate (Suc (length xs)) 0" by simp
    then show ?thesis by blast
  qed
qed

lemma one_rise_contiguous:
  "\<forall>b\<in>set xs. b = 0 \<or> b = 1 \<Longrightarrow> rises 0 xs \<le> 1 \<Longrightarrow> contiguous_ones xs"
proof (induction xs)
  case Nil
  have "[] = replicate 0 (0::int) @ replicate 0 1 @ replicate 0 0" by simp
  then show ?case unfolding contiguous_ones_def by blast
next
  case (Cons x xs)
  show ?case
  proof (cases "x = 1")
    case True
    with Cons.prems have "rises 1 xs = 0" by simp
    with Cons.prems no_rise_after_one [of xs] obtain b c
      where "xs = replicate b 1 @ replicate c 0" by auto
    with True have "x # xs = replicate 0 0 @ replicate (Suc b) 1 @ replicate c 0" by simp
    then show ?thesis unfolding contiguous_ones_def by blast
  next
    case False
    with Cons.prems have x: "x = 0" and "rises 0 xs \<le> 1" by auto
    with Cons obtain a b c where "xs = replicate a 0 @ replicate b 1 @ replicate c 0"
      unfolding contiguous_ones_def by auto
    with x have "x # xs = replicate (Suc a) 0 @ replicate b 1 @ replicate c 0" by simp
    then show ?thesis unfolding contiguous_ones_def by blast
  qed
qed

lemma contiguous_ones_iff:
  "\<forall>b\<in>set xs. b = 0 \<or> b = 1 \<Longrightarrow> contiguous_ones xs \<longleftrightarrow> rises 0 xs \<le> 1"
  using one_rise_contiguous rises_contiguous
  by (auto simp: contiguous_ones_def)

lemma transition_value:
  assumes "cur = 0 \<or> cur = 1" "nxt = 0 \<or> nxt = 1"
  shows "wire_add G (u mod order G) (wire_mul G (wire_sub G nxt cur) nxt) =
         (u + (if cur = 0 \<and> nxt = 1 then 1 else 0)) mod order G"
proof -
  have "wire_add G (u mod order G) (wire_mul G (wire_sub G nxt cur) nxt) =
        (u + (nxt - cur) * nxt) mod order G"
    by (simp add: wire_add_def wire_mul_def wire_sub_def mod_simps)
  moreover from assms have "(nxt - cur) * nxt = (if cur = 0 \<and> nxt = 1 then 1 else 0)"
    by auto
  ultimately show ?thesis by simp
qed

lemma line_vote_loop:
  assumes binary: "\<forall>b\<in>set ballot. b = 0 \<or> b = 1" and order: "1 < order G"
    and k: "k < length ballot"
  shows "for_acc [0..<k] (ballot ! 0) (\<lambda>idx indicator_bit_up.
          gate_bind (item ballot (idx + 1)) (\<lambda>nxt.
          gate_bind (assert_bit nxt) (\<lambda>_.
          gate_bind (item ballot idx) (\<lambda>cur.
          ret (wire_add G indicator_bit_up (wire_mul G (wire_sub G nxt cur) nxt)))))) =
         (Inr (int (rises 0 (take (Suc k) ballot)) mod order G),
          map AssertBit (take k (tl ballot)))"
  using k
proof (induction k)
  case 0
  then have "ballot ! 0 \<in> set ballot" by simp
  with binary have "ballot ! 0 = 0 \<or> ballot ! 0 = 1" by blast
  moreover from 0 have "take (Suc 0) ballot = [ballot ! 0]"
    by (simp add: take_Suc_conv_app_nth)
  ultimately show ?case using order by (auto simp: ret_def)
next
  case (Suc k)
  let ?cur = "ballot ! k" and ?nxt = "ballot ! Suc k"
  from Suc.prems have k: "k < length ballot" and k1: "Suc k < length ballot" by simp_all
  from k k1 binary have cur: "?cur = 0 \<or> ?cur = 1" and nxt: "?nxt = 0 \<or> ?nxt = 1"
    by (simp_all add: nth_mem)
  from k have nonempty: "take (Suc k) ballot \<noteq> []" by auto
  from k have last: "last (take (Suc k) ballot) = ?cur"
    by (simp add: take_Suc_conv_app_nth)
  have rises: "rises 0 (take (Suc (Suc k)) ballot) =
               rises 0 (take (Suc k) ballot) + (if ?cur = 0 \<and> ?nxt = 1 then 1 else 0)"
    using rises_snoc [OF nonempty, of 0 ?nxt] last k1
    by (simp add: take_Suc_conv_app_nth [of "Suc k"])
  have log: "take (Suc k) (tl ballot) = take k (tl ballot) @ [?nxt]"
    using k1 by (simp add: take_Suc_conv_app_nth nth_tl)
  have reads: "item ballot (Suc k) = ret ?nxt" "item ballot k = ret ?cur"
    using k k1 by (simp_all add: item_def)
  have bit: "assert_bit ?nxt = (Inr (), [AssertBit ?nxt])"
    using nxt by (auto simp: assert_bit_def)
  have step: "wire_add G (int (rises 0 (take (Suc k) ballot)) mod order G)
                (wire_mul G (wire_sub G ?nxt ?cur) ?nxt) =
              int (rises 0 (take (Suc (Suc k)) ballot)) mod order G"
    unfolding transition_value [OF cur nxt] rises by simp
  show ?case
    unfolding upt_Suc_append [OF le0] for_acc_append Suc.IH [OF k]
    by (simp add: gate_bind_def ret_def reads [unfolded ret_def] bit step log)
qed

lemma line_vote_outcome:
  assumes nonempty: "ballot \<noteq> []" and binary: "\<forall>b\<in>set ballot. b = 0 \<or> b = 1"
    and order: "1 < order G"
  shows "assert_line_vote_ballot G ballot =
         (if int (rises 0 ballot) mod order G = 0 \<or> int (rises 0 ballot) mod order G = 1
          then Inr () else Inl ConstraintViolation,
          map AssertBit ballot @ [AssertBit (int (rises 0 ballot) mod order G)])"
proof -
  from nonempty have k: "length ballot - 1 < length ballot" by simp
  from nonempty have first: "item ballot 0 = ret (ballot ! 0)"
    by (simp add: item_def)
  from nonempty binary have "ballot ! 0 = 0 \<or> ballot ! 0 = 1"
    by (simp add: nth_mem)
  then have bit: "assert_bit (ballot ! 0) = (Inr (), [AssertBit (ballot ! 0)])"
    by (auto simp: assert_bit_def)
  from nonempty have whole: "take (Suc (length ballot - 1)) ballot = ballot"
    and tail: "take (length ballot - 1) (tl ballot) = tl ballot"
    by simp_all
  from nonempty have "ballot = ballot ! 0 # tl ballot"
    by (simp add: hd_conv_nth [symmetric])
  then have split: "AssertBit (ballot ! 0) # map AssertBit (tl ballot) = map AssertBit ballot"
    by (metis list.simps(9))
  show ?thesis
    unfolding assert_line_vote_ballot_def first gate_bind_ret bit
      line_vote_loop [OF binary order k] whole tail
    using split by (simp add: gate_bind_def assert_bit_def)
qed

lemma condorcet_three_candidates_pairs:
  assumes ok: "outcome (assert_condorcet_ballot G m) = Inr ()"
    and square: "\<forall>row\<in>set m. length row = length m"
    and three: "3 \<le> length m"
    and ij: "i < length m" "j < length m" "i \<noteq> j"
  shows "py_sum G [m ! i ! j, m ! j ! i] = 0 \<or> py_sum G [m ! i ! j, m ! j ! i] = 1"
proof -
  obtain k where k: "k < length m" "k \<noteq> i" "k \<noteq> j"
  proof -
    have "card ({..<length m} - {i, j}) \<ge> 1"
      using three ij by (simp add: card_Diff_insert card_Diff_singleton_if)
    then obtain k where "k \<in> {..<length m} - {i, j}"
      by (metis One_nat_def Suc_le_lessD card_gt_0_iff all_not_in_conv)
    then show ?thesis using that by auto
  qed
  from ok have "\<forall>y\<in>set (product3 (length m)). fst ((\<lambda>(i, j, k).
          if i = j \<or> i = k \<or> j = k then ret ()
          else
            gate_bind (item2 m i j) (\<lambda>value_i_j.
            gate_bind (item2 m j i) (\<lambda>value_j_i.
            gate_bind (item2 m j i) (\<lambda>b_j_i.
            gate_bind (item2 m k j) (\<lambda>b_k_j.
            gate_bind (item2 m k i) (\<lambda>b_k_i.
              (let check_matrix_i_j = wire_sub G (gen G 1) b_j_i;
                   check_matrix_j_k = wire_sub G (gen G 1) b_k_j;
                   check_matrix_i_k = wire_sub G (gen G 1) b_k_i
               in gate_bind (assert_bit (py_sum G [value_i_j, value_j_i])) (\<lambda>_.
                    (let ind_false = and_gate G [check_matrix_i_j, check_matrix_j_k,
                                                  wire_sub G 1 check_matrix_i_k]
                     in assert_equal G [ind_false] [gen G 0]))))))))) y) = Inr ()"
    unfolding assert_condorcet_ballot_def two_loops_succeed by (elim conjE)
  moreover have "(i, j, k) \<in> set (product3 (length m))"
    using ij k by (simp add: set_product3)
  ultimately have "fst (gate_bind (item2 m i j) (\<lambda>value_i_j.
            gate_bind (item2 m j i) (\<lambda>value_j_i.
            gate_bind (item2 m j i) (\<lambda>b_j_i.
            gate_bind (item2 m k j) (\<lambda>b_k_j.
            gate_bind (item2 m k i) (\<lambda>b_k_i.
              (let check_matrix_i_j = wire_sub G (gen G 1) b_j_i;
                   check_matrix_j_k = wire_sub G (gen G 1) b_k_j;
                   check_matrix_i_k = wire_sub G (gen G 1) b_k_i
               in gate_bind (assert_bit (py_sum G [value_i_j, value_j_i])) (\<lambda>_.
                    (let ind_false = and_gate G [check_matrix_i_j, check_matrix_j_k,
                                                  wire_sub G 1 check_matrix_i_k]
                     in assert_equal G [ind_false] [gen G 0]))))))))) = Inr ()"
    using ij(3) k(2,3) by (auto simp only: prod.case split: if_splits)
  then have "(m ! i ! j + m ! j ! i) mod order G = 0 \<or> (m ! i ! j + m ! j ! i) mod order G = 1"
    unfolding condorcet_triple_body [OF ij(1) ij(2) k(1) square ij(3) k(2) [symmetric] k(3) [symmetric]]
    by (simp split: if_splits)
  then show ?thesis
    by (simp only: py_sum_pair)
qed

lemma product3_three':
  "product3 3 =
     [(0, 0, 0), (0, 0, 1), (0, 0, 2), (0, 1, 0), (0, 1, 1), (0, 1, 2), (0, 2, 0)] @ (0, 2, 1) #
     [(0, 2, 2),
      (1, 0, 0), (1, 0, 1), (1, 0, 2), (1, 1, 0), (1, 1, 1), (1, 1, 2),
      (1, 2, 0), (1, 2, 1), (1, 2, 2),
      (2, 0, 0), (2, 0, 1), (2, 0, 2), (2, 1, 0), (2, 1, 1), (2, 1, 2),
      (2, 2, 0), (2, 2, 1), (2, 2, 2)]"
  by code_simp

lemma condorcet_rejects_reversed_cycle:
  assumes order: "1 < order G"
  shows "fst (assert_condorcet_ballot G [[d0, 0, 1], [1, d1, 0], [0, 1, d2]]) =
         Inl ConstraintViolation"
proof -
  let ?m = "[[d0, 0, 1], [1, d1, 0], [0, 1, d2]]"
  have first: "fst (for_each (enumerate 0 ?m) (\<lambda>(i, row).
                  for_each (enumerate 0 row) (\<lambda>(j, entry).
                    if i = j then ret () else assert_bit entry))) = Inr ()"
    by (simp add: fst_gate_bind fst_assert_bit)
  have len: "length ?m = 3" by simp
  have rows: "\<forall>row\<in>set ?m. length row = length ?m" by simp
  have one: "1 mod order G = 1" using order by simp
  show ?thesis
    unfolding assert_condorcet_ballot_def fst_gate_bind
    apply (subst first)
    apply (simp only: len sum.case product3_three')
    apply (rule for_each_first_failure)
     apply (simp add: item2_def item_def fst_gate_bind fst_assert_bit
        fst_assert_equal_single py_sum_pair and_gate_three wire_sub_def gen_def one)
    apply (simp only: prod.case)
    apply (subst if_not_P)
     apply simp
    apply (subst condorcet_triple_body)
           apply (simp_all only: len rows)
          apply simp_all
    using order apply (simp add: gen_def)
    done
qed

lemma occurs_exactly_once:
  assumes "1 < order G" and "int (length ws) < order G"
  shows "(get_n_occurences G ws w = gen G 1) = (length (filter (\<lambda>v. v = w) ws) = 1)"
proof -
  have "length (filter (\<lambda>v. v = w) ws) \<le> length ws" by simp
  with assms have "int (length (filter (\<lambda>v. v = w) ws)) < order G" by linarith
  then have "gen G (int (length (filter (\<lambda>v. v = w) ws))) = int (length (filter (\<lambda>v. v = w) ws))"
    by (simp add: gen_def)
  moreover from assms have "gen G 1 = 1" by (simp add: gen_def)
  ultimately show ?thesis
    by (simp add: get_n_occurences_count)
qed

lemma pointlist_borda_gate_counts:
  assumes "length ordered_points \<le> length ballot"
  shows "(outcome (assert_pointlist_borda_ballot G ballot ordered_points) = Inr () \<longleftrightarrow>
            get_n_occurences G ballot (gen G 0) =
              gen G (int (length ballot) - int (length ordered_points)) \<and>
            (\<forall>point\<in>set ordered_points. get_n_occurences G ballot point = gen G 1))
       \<and> (outcome (assert_pointlist_borda_ballot G ballot ordered_points) = Inr () \<or>
          outcome (assert_pointlist_borda_ballot G ballot ordered_points) = Inl ConstraintViolation)
       \<and> (outcome (assert_pointlist_borda_ballot G ballot ordered_points) = Inr () \<longrightarrow>
            asserted (assert_pointlist_borda_ballot G ballot ordered_points) =
              AssertEqual [gen G (int (length ballot) - int (length ordered_points))]
                          [get_n_occurences G ballot (gen G 0)]
              # map (\<lambda>point. AssertEqual [get_n_occurences G ballot point] [gen G 1])
                    ordered_points)
       \<and> (\<forall>w. get_n_occurences G ballot w = gen G (sum_list (map (\<lambda>v. eq G v w) ballot)) \<and>
               get_n_occurences G ballot w = gen G (int (length (filter (\<lambda>v. v = w) ballot))))"
proof -
  let ?run = "assert_pointlist_borda_ballot G ballot ordered_points"
  let ?zeros = "get_n_occurences G ballot (gen G 0)"
  let ?expected = "gen G (int (length ballot) - int (length ordered_points))"
  let ?body = "\<lambda>point. assert_equal G [get_n_occurences G ballot point] [gen G 1]"
  have run: "?run = gate_bind (assert_equal G [?expected] [?zeros]) (\<lambda>_. for_each ordered_points ?body)"
    by (simp add: assert_pointlist_borda_ballot_def Let_def)
  have body_ok: "(fst (?body point) = Inr ()) = (get_n_occurences G ballot point = gen G 1)" for point
    by (simp add: fst_assert_equal_single)
  have loop_ok: "(fst (for_each ordered_points ?body) = Inr ()) =
                 (\<forall>point\<in>set ordered_points. get_n_occurences G ballot point = gen G 1)"
    by (simp add: for_each_succeeds body_ok)
  have iff: "(fst ?run = Inr ()) =
             (?zeros = ?expected \<and>
              (\<forall>point\<in>set ordered_points. get_n_occurences G ballot point = gen G 1))"
    unfolding run fst_gate_bind fst_assert_equal_single using loop_ok by auto
  have loop_fail: "fst (for_each ordered_points ?body) = Inr () \<or>
                   fst (for_each ordered_points ?body) = Inl ConstraintViolation"
  proof (cases "fst (for_each ordered_points ?body)")
    case (Inl e)
    then obtain point where "fst (?body point) = Inl e"
      using for_each_failure by blast
    then have "e = ConstraintViolation"
      by (simp add: fst_assert_equal_single split: if_splits)
    with Inl show ?thesis by simp
  next
    case (Inr u)
    then show ?thesis by simp
  qed
  have kinds: "fst ?run = Inr () \<or> fst ?run = Inl ConstraintViolation"
    unfolding run fst_gate_bind fst_assert_equal_single using loop_fail by auto
  have log: "snd ?run = AssertEqual [?expected] [?zeros]
               # map (\<lambda>point. AssertEqual [get_n_occurences G ballot point] [gen G 1]) ordered_points"
    if ok: "fst ?run = Inr ()"
  proof -
    from ok iff have z: "?zeros = ?expected"
      and once: "\<forall>point\<in>set ordered_points. get_n_occurences G ballot point = gen G 1"
      by auto
    from once have all: "\<forall>point\<in>set ordered_points. fst (?body point) = Inr ()"
      by (simp add: fst_assert_equal_single)
    have "snd (for_each ordered_points ?body) =
          map (\<lambda>point. AssertEqual [get_n_occurences G ballot point] [gen G 1]) ordered_points"
      using for_each_constraints [OF all]
      by (simp add: snd_assert_equal concat_map_singleton)
    then show ?thesis
      unfolding run snd_gate_bind fst_assert_equal_single using z
      by (simp add: snd_assert_equal)
  qed
  have counts: "get_n_occurences G ballot w = gen G (sum_list (map (\<lambda>v. eq G v w) ballot)) \<and>
                get_n_occurences G ballot w = gen G (int (length (filter (\<lambda>v. v = w) ballot)))" for w
    by (simp add: get_n_occurences_count sum_indicators)
  from iff kinds log counts show ?thesis by blast
qed

lemma gen_small: "0 \<le> n \<Longrightarrow> n < order G \<Longrightarrow> gen G n = n"
  by (simp add: gen_def)

lemma py_sum_fold:
  "fold (\<lambda>w acc. wire_add G acc w) ws (a mod order G) = (a + sum_list ws) mod order G"
proof (induction ws arbitrary: a)
  case Nil
  show ?case by simp
next
  case (Cons w ws)
  have "wire_add G (a mod order G) w = (a + w) mod order G"
    by (simp add: wire_add_def mod_simps)
  with Cons.IH [of "a + w"] show ?case
    by (simp add: add.assoc)
qed

lemma py_sum_mod: "py_sum G ws = sum_list ws mod order G"
  using py_sum_fold [of G ws 0] by (simp add: py_sum_def)

lemma sum_binary:
  "\<forall>b\<in>set ws. b = 0 \<or> b = 1 \<Longrightarrow> sum_list ws = int (length (filter (\<lambda>b. b = 1) ws))"
  by (induction ws) auto

lemma for_each_bits:
  "fst (for_each ballot assert_bit) =
     (if \<forall>b\<in>set ballot. b = 0 \<or> b = 1 then Inr () else Inl ConstraintViolation)"
proof (cases "fst (for_each ballot assert_bit)")
  case (Inl e)
  then obtain b where "b \<in> set ballot" "fst (assert_bit b) = Inl e"
    using for_each_failure by blast
  then have "e = ConstraintViolation" "\<not> (b = 0 \<or> b = 1)"
    by (simp_all add: fst_assert_bit split: if_splits)
  with Inl \<open>b \<in> set ballot\<close> show ?thesis by auto
next
  case (Inr u)
  then have ok: "fst (for_each ballot assert_bit) = Inr ()" by simp
  then have "\<forall>b\<in>set ballot. fst (assert_bit b) = Inr ()"
    by (simp add: for_each_succeeds)
  then have "\<forall>b\<in>set ballot. b = 0 \<or> b = 1"
    by (auto simp: fst_assert_bit split: if_splits)
  with ok show ?thesis by simp
qed

lemma for_each_bits_asserted:
  "\<forall>b\<in>set ballot. b = 0 \<or> b = 1 \<Longrightarrow> snd (for_each ballot assert_bit) = map AssertBit ballot"
proof -
  assume "\<forall>b\<in>set ballot. b = 0 \<or> b = 1"
  then have "\<forall>b\<in>set ballot. fst (assert_bit b) = Inr ()"
    by (simp add: fst_assert_bit)
  from for_each_constraints [OF this] show ?thesis
    by (simp add: snd_assert_bit concat_map_singleton)
qed





lemma map_gate_ret:
  "\<forall>x\<in>set xs. f x = ret (h x) \<Longrightarrow> map_gate f xs = ret (map h xs)"
  by (induction xs) simp_all

lemma others_distinct:
  assumes "distinct rs" and "i < length rs"
  shows "others i rs = filter (\<lambda>y. y \<noteq> rs ! i) rs"
proof -
  have "filter (\<lambda>(j, comp_val). j \<noteq> i) (enumerate 0 rs) =
        filter (\<lambda>(j, comp_val). comp_val \<noteq> rs ! i) (enumerate 0 rs)"
  proof (rule filter_cong [OF refl])
    fix p assume "p \<in> set (enumerate 0 rs)"
    then have "fst p < length rs" "snd p = rs ! fst p"
      by (simp_all add: in_set_enumerate_eq)
    then obtain j where j: "j < length rs" "p = (j, rs ! j)"
      by (cases p) auto
    with assms show "(case p of (j, comp_val) \<Rightarrow> j \<noteq> i) =
                     (case p of (j, comp_val) \<Rightarrow> comp_val \<noteq> rs ! i)"
      by (simp add: nth_eq_iff_index_eq)
  qed
  moreover have "map snd (filter (\<lambda>(j, comp_val). P comp_val) ps) = filter P (map snd ps)"
    for P and ps :: "(nat \<times> int) list"
    by (induction ps) auto
  ultimately show ?thesis
    by (simp add: others_def)
qed

lemma sum_list_mod:
  "sum_list (map (\<lambda>x. f x mod p) xs) mod p = sum_list (map f xs) mod (p::int)"
proof (induction xs)
  case Nil
  show ?case by simp
next
  case (Cons x xs)
  have "(f x mod p + sum_list (map (\<lambda>x. f x mod p) xs)) mod p =
        (f x + sum_list (map (\<lambda>x. f x mod p) xs) mod p) mod p"
    by (simp add: mod_simps)
  also have "\<dots> = (f x + sum_list (map f xs)) mod p"
    unfolding Cons.IH by (simp add: mod_simps)
  finally show ?case by simp
qed

lemma indicator_sum:
  "py_sum G (map (\<lambda>y. if P y then gen G 1 else gen G 0) ys) =
   gen G (int (length (filter P ys)))"
proof -
  have "sum_list (map (\<lambda>y. if P y then (1::int) else 0) ys) = int (length (filter P ys))"
    by (induction ys) simp_all
  moreover have "(\<lambda>y. if P y then gen G 1 else gen G 0) =
                 (\<lambda>y. (if P y then 1 else 0) mod order G)"
    by (auto simp: gen_def)
  ultimately show ?thesis
    by (simp add: py_sum_mod sum_list_mod gen_def)
qed

lemma pairs_count:
  "distinct (rs :: int list) \<Longrightarrow>
   2 * sum_list (map (\<lambda>x. int (length (filter (\<lambda>y. y < x) rs))) rs) =
   int (length rs) * (int (length rs) - 1)"
proof (induction rs)
  case Nil
  show ?case by simp
next
  case (Cons a rs)
  then have a: "a \<notin> set rs" and d: "distinct rs" by simp_all
  have split: "length (filter (\<lambda>y. y < a) rs) + length (filter (\<lambda>x. a < x) rs) = length rs"
    using a
  proof (induction rs)
    case Nil
    show ?case by simp
  next
    case (Cons b rs)
    then show ?case by (cases "b < a") auto
  qed
  have "sum_list (map (\<lambda>x. int (length (filter (\<lambda>y. y < x) (a # rs)))) rs) =
        int (length (filter (\<lambda>x. a < x) rs)) +
        sum_list (map (\<lambda>x. int (length (filter (\<lambda>y. y < x) rs))) rs)"
    (is "sum_list (map ?f rs) = _")
  proof -
    have "?f = (\<lambda>x. (if a < x then 1 else 0) + int (length (filter (\<lambda>y. y < x) rs)))"
      by auto
    moreover have "sum_list (map (\<lambda>x. if a < x then (1::int) else 0) rs) =
                   int (length (filter (\<lambda>x. a < x) rs))"
      by (induction rs) simp_all
    ultimately show ?thesis
      by (simp add: sum_list_addf)
  qed
  then have "sum_list (map (\<lambda>x. int (length (filter (\<lambda>y. y < x) (a # rs)))) (a # rs)) =
             int (length rs) + sum_list (map (\<lambda>x. int (length (filter (\<lambda>y. y < x) rs))) rs)"
    using split by simp
  with Cons.IH [OF d] show ?case
    by (simp add: algebra_simps)
qed

lemma filter_smaller_others:
  "filter (\<lambda>y. y < x) (filter (\<lambda>y. y \<noteq> x) rs) = filter (\<lambda>y. y < x) (rs :: int list)"
  by (induction rs) auto

lemma filter_equal_others:
  "filter (\<lambda>y. x = y) (filter (\<lambda>y. y \<noteq> x) rs) = []"
  by (induction rs) auto

lemma score_wire: "wire_add G (wire_mul G 2 (gen G c)) (gen G 0) = gen G (2 * c)"
  by (simp add: wire_add_def wire_mul_def gen_def mod_simps)

lemma borda_candidate:
  assumes distinct: "distinct rs"
    and wires: "\<forall>r\<in>set rs. 0 < r \<and> in_group G r \<and> fits r bits"
    and smaller: "\<forall>x\<in>set rs. \<forall>y\<in>set rs. x \<noteq> y \<longrightarrow> cmp (x - 1) y = (y < x)"
    and p: "p \<in> set (enumerate 0 rs)"
  shows "(\<lambda>(i, ranking_val).
         gate_bind
           (map_gate (\<lambda>comp_val. gt cmp G (wire_sub G ranking_val 1) comp_val bits)
              (others i rs))
           (\<lambda>gts.
              (let n_truely_greater = py_sum G gts;
                   n_eq = py_sum G (map (\<lambda>comp_val. eq G ranking_val comp_val)
                                      (others i rs))
               in ret (wire_add G (wire_mul G 2 n_truely_greater) n_eq)))) p =
         ret (gen G (2 * int (length (filter (\<lambda>y. y < snd p) rs))))"
proof -
  from p have "fst p < length rs" "snd p = rs ! fst p"
    by (simp_all add: in_set_enumerate_eq)
  then obtain i where i: "i < length rs" and p_eq: "p = (i, rs ! i)"
    by (cases p) auto
  let ?x = "rs ! i"
  from i have x: "?x \<in> set rs" by simp
  with wires have x_wire: "0 < ?x" "?x < order G" "?x < 2 ^ bits"
    by (auto simp: in_group_def fits_def)
  then have sub: "wire_sub G ?x 1 = ?x - 1"
    by (simp add: wire_sub_def)
  have os: "others i rs = filter (\<lambda>y. y \<noteq> ?x) rs"
    using distinct i by (rule others_distinct)
  have row: "map_gate (\<lambda>comp_val. gt cmp G (?x - 1) comp_val bits) (filter (\<lambda>y. y \<noteq> ?x) rs) =
             ret (map (\<lambda>y. if y < ?x then gen G 1 else gen G 0) (filter (\<lambda>y. y \<noteq> ?x) rs))"
  proof (rule map_gate_ret, rule ballI)
    fix y assume "y \<in> set (filter (\<lambda>y. y \<noteq> ?x) rs)"
    then have y: "y \<in> set rs" "?x \<noteq> y" by auto
    with wires have "fits y bits" by blast
    moreover from x_wire have "fits (?x - 1) bits" by (simp add: fits_def)
    moreover from smaller x y have "cmp (?x - 1) y = (y < ?x)" by blast
    ultimately show "gt cmp G (?x - 1) y bits = ret (if y < ?x then gen G 1 else gen G 0)"
      by (simp add: gt_def)
  qed
  have n_gt: "py_sum G (map (\<lambda>y. if y < ?x then gen G 1 else gen G 0) (filter (\<lambda>y. y \<noteq> ?x) rs)) =
              gen G (int (length (filter (\<lambda>y. y < ?x) rs)))"
    by (simp only: indicator_sum filter_smaller_others)
  have "(\<lambda>comp_val. eq G ?x comp_val) = (\<lambda>y. if ?x = y then gen G 1 else gen G 0)"
    by (simp add: eq_def)
  then have n_eq: "py_sum G (map (\<lambda>comp_val. eq G ?x comp_val) (filter (\<lambda>y. y \<noteq> ?x) rs)) = gen G 0"
    by (simp only: indicator_sum filter_equal_others) simp
  show ?thesis
    unfolding p_eq prod.case snd_conv sub os row gate_bind_ret Let_def n_gt n_eq score_wire ..
qed

lemma borda_scores:
  assumes distinct: "distinct rs"
    and wires: "\<forall>r\<in>set rs. 0 < r \<and> in_group G r \<and> fits r bits"
    and smaller: "\<forall>x\<in>set rs. \<forall>y\<in>set rs. x \<noteq> y \<longrightarrow> cmp (x - 1) y = (y < x)"
  shows "compute_borda_tournament_style_ballot cmp G rs bits = ret (tournament_scores G rs)"
proof -
  have "map (\<lambda>p. f (snd p)) (enumerate n xs) = map f xs" for f :: "int \<Rightarrow> int" and n xs
    by (induction xs arbitrary: n) simp_all
  then have scores: "map (\<lambda>p. gen G (2 * int (length (filter (\<lambda>y. y < snd p) rs))))
                       (enumerate 0 rs) = tournament_scores G rs"
    unfolding tournament_scores_def .
  show ?thesis
    unfolding compute_borda_tournament_style_ballot_def scores [symmetric]
    by (rule map_gate_ret, rule ballI, rule borda_candidate [OF distinct wires smaller])
qed

lemma tournament_scores_group_sum:
  assumes "distinct rs"
  shows "py_sum G (tournament_scores G rs) = gen G (int (length rs) * (int (length rs) - 1))"
proof -
  have "sum_list (map (\<lambda>x. (2 * int (length (filter (\<lambda>y. y < x) rs))) mod order G) rs) mod order G =
        sum_list (map (\<lambda>x. 2 * int (length (filter (\<lambda>y. y < x) rs))) rs) mod order G"
    by (rule sum_list_mod)
  moreover have "sum_list (map (\<lambda>x. 2 * int (length (filter (\<lambda>y. y < x) rs))) rs) =
                 2 * sum_list (map (\<lambda>x. int (length (filter (\<lambda>y. y < x) rs))) rs)"
    by (simp add: sum_list_const_mult)
  ultimately show ?thesis
    using pairs_count [OF assms]
    by (simp add: py_sum_mod tournament_scores_def gen_def)
qed

lemma tournament_scores_sum:
  assumes distinct: "distinct rs" and small: "2 * (int (length rs) - 1) < order G"
  shows "sum_list (tournament_scores G rs) = int (length rs) * (int (length rs) - 1)"
proof -
  have "gen G (2 * int (length (filter (\<lambda>y. y < x) rs))) =
        2 * int (length (filter (\<lambda>y. y < x) rs))" if "x \<in> set rs" for x
  proof -
    from that have "length (filter (\<lambda>y. y < x) rs) < length rs"
      by (intro length_filter_less) auto
    then have "int (length (filter (\<lambda>y. y < x) rs)) \<le> int (length rs) - 1"
      by linarith
    moreover have "c \<le> n - 1 \<Longrightarrow> 2 * (n - 1) < k \<Longrightarrow> 2 * c < k" for c n k :: int
      by presburger
    ultimately have "2 * int (length (filter (\<lambda>y. y < x) rs)) < order G"
      using small by blast
    then show ?thesis by (simp add: gen_small)
  qed
  then have "tournament_scores G rs = map (\<lambda>x. 2 * int (length (filter (\<lambda>y. y < x) rs))) rs"
    by (simp add: tournament_scores_def)
  then show ?thesis
    using pairs_count [OF distinct] by (simp add: sum_list_const_mult)
qed

section \<open>The encryption gate on a scalar randomness\<close>

text \<open>
  C8: for every group, curve parameters A and B, base point g, public key pk, plaintext
  wire x and randomness wire r, exponential_elgamal_over_montgomery_curve returns the
  pair (g^r, g^x + pk^r): the three exponentiations by a scalar wire of the curve
  arithmetic, followed by one addition of points. It asserts no constraint: the list of
  constraints it registers is empty, and it raises nothing of its own.
\<close>

theorem elgamal_scalar_ciphertext:
  "exponential_elgamal_over_montgomery_curve M G A B g pk x r =
     (Inr (exponent_homogeneous_point M G A B g r,
           add_homogeneous_points M G A B
             (exponent_homogeneous_point M G A B g x)
             (exponent_homogeneous_point M G A B pk r)),
      [])"
  by (simp add: exponential_elgamal_over_montgomery_curve_def ret_def)

section \<open>The two encryption gates agree\<close>

text \<open>
  C3: for every group, curve parameters A and B, base point g, public key pk, plaintext
  x and randomness r, when r_bits is the most-significant-bit-first decomposition of r
  and n_max_bits_x is the group's default bit capacity (given explicitly or left out),
  exponential_elgamal_over_montgomery_curve_bit_randomness returns the same pair of
  points as exponential_elgamal_over_montgomery_curve, and like it asserts nothing. The
  curve arithmetic is any that meets the contract scalar_multiplication; x and r are
  elements of the group, and the bit capacity holds every element of the group.
\<close>

theorem elgamal_bit_randomness_equals_scalar:
  assumes contract: "scalar_multiplication M G"
    and capacity: "order G \<le> 2 ^ n_bits G"
    and x: "in_group G x"
    and r: "in_group G r"
    and r_bits: "fits r k" "r_bits = bits_msb k r"
    and width: "n_max_bits_x = None \<or> n_max_bits_x = Some (n_bits G)"
  shows "exponential_elgamal_over_montgomery_curve_bit_randomness M G A B g pk x r_bits n_max_bits_x =
         exponential_elgamal_over_montgomery_curve M G A B g pk x r"
proof -
  let ?x_bits = "bits_msb (n_bits G) x"
  from x capacity have fits_x: "fits x (n_bits G)"
    by (simp add: in_group_def fits_def)
  from width fits_x have split_x: "split G x n_max_bits_x = ret ?x_bits"
    by (auto simp: split_def)
  have value_x: "bits_value ?x_bits = x"
    using fits_x by (rule bits_value_fits)
  have value_r: "bits_value r_bits = r"
    using r_bits by (simp add: bits_value_fits)
  have exp_x: "exponent_homogeneous_point_bit_exponent M G A B p ?x_bits =
               exponent_homogeneous_point M G A B p x" for p
    using contract x value_x bits_msb_binary [of "n_bits G" x]
    by (simp add: scalar_multiplication_def)
  have exp_r: "exponent_homogeneous_point_bit_exponent M G A B p r_bits =
               exponent_homogeneous_point M G A B p r" for p
    using contract r value_r bits_msb_binary [of k r] r_bits(2)
    by (simp add: scalar_multiplication_def)
  show ?thesis
    by (simp add: exponential_elgamal_over_montgomery_curve_bit_randomness_def
        exponential_elgamal_over_montgomery_curve_def split_x exp_x exp_r)
qed

theorem elgamal_bit_randomness_equals_scalar_witness:
  "exponential_elgamal_over_montgomery_curve_bit_randomness
     \<lparr>exponent_homogeneous_point = (\<lambda>G A B p s. p * s),
      exponent_homogeneous_point_bit_exponent = (\<lambda>G A B p bs. p * bits_value bs),
      add_homogeneous_points = (\<lambda>G A B p q. p + q)\<rparr>
     (Group 7 3) 1 1 2 3 5 [0, 1, 1] None
   = (Inr (6, 19 :: int), [])"
proof -
  let ?M = "\<lparr>exponent_homogeneous_point = (\<lambda>G A B (p::int) s. p * s),
      exponent_homogeneous_point_bit_exponent = (\<lambda>G A B p bs. p * bits_value bs),
      add_homogeneous_points = (\<lambda>G A B p q. p + q)\<rparr>"
  have contract: "scalar_multiplication ?M (Group 7 3)"
    by (simp add: scalar_multiplication_def)
  have capacity: "order (Group 7 3) \<le> 2 ^ n_bits (Group 7 3)" by simp
  have x: "in_group (Group 7 3) 5" and r: "in_group (Group 7 3) 3"
    by (simp_all add: in_group_def)
  have fits_r: "fits 3 3" by (simp add: fits_def)
  have r_bits: "[0, 1, 1] = bits_msb 3 3"
    by (simp add: bits_msb_def upt_rec)
  have "exponential_elgamal_over_montgomery_curve_bit_randomness ?M (Group 7 3) 1 1 2 3 5 [0, 1, 1] None =
        exponential_elgamal_over_montgomery_curve ?M (Group 7 3) 1 1 2 3 5 3"
    using elgamal_bit_randomness_equals_scalar [OF contract capacity x r fits_r r_bits, of None]
    by simp
  then show ?thesis
    by (simp add: exponential_elgamal_over_montgomery_curve_def ret_def)
qed

section \<open>The line vote: a single run of ones\<close>

text \<open>
  C4, as amended: the indicator that counts the runs of ones is a wire, so the count is
  taken modulo the order of the group. For every ballot that is not empty, whose
  entries are all binary and whose length n satisfies n + 1 < 2 * order (so that the
  number of runs, at most (n + 1) div 2, is below the order), assert_line_vote_ballot
  succeeds if and only if the ones form a single contiguous run located anywhere in
  the ballot, the ballot of zeros included, and fails with a constraint violation
  otherwise. In every group of order greater than 2 it succeeds on [1,1,1,0,0] and on
  [0,0,0,0,0] and fails on [1,0,1,0,0].
\<close>

theorem line_vote_single_run:
  "(ballot \<noteq> [] \<and> (\<forall>b\<in>set ballot. b = 0 \<or> b = 1) \<and>
      int (length ballot) + 1 < 2 * order G \<longrightarrow>
      outcome (assert_line_vote_ballot G ballot) =
        (if contiguous_ones ballot then Inr () else Inl ConstraintViolation)) \<and>
   (2 < order G \<longrightarrow>
      outcome (assert_line_vote_ballot G [1, 1, 1, 0, 0]) = Inr () \<and>
      outcome (assert_line_vote_ballot G [0, 0, 0, 0, 0]) = Inr () \<and>
      outcome (assert_line_vote_ballot G [1, 0, 1, 0, 0]) = Inl ConstraintViolation)"
proof (intro conjI impI)
  assume hyps: "ballot \<noteq> [] \<and> (\<forall>b\<in>set ballot. b = 0 \<or> b = 1) \<and>
      int (length ballot) + 1 < 2 * order G"
  then have nonempty: "ballot \<noteq> []" and binary: "\<forall>b\<in>set ballot. b = 0 \<or> b = 1"
    and short: "int (length ballot) + 1 < 2 * order G"
    by simp_all
  from nonempty have "0 < length ballot" by simp
  with short have order: "1 < order G" by linarith
  have "rises 0 ballot \<le> (length ballot + 1) div 2"
    using rises_bound [of 0 ballot] by simp
  then have "2 * int (rises 0 ballot) \<le> int (length ballot) + 1"
    by linarith
  with short have small: "int (rises 0 ballot) < order G" by linarith
  then have unwrapped: "int (rises 0 ballot) mod order G = int (rises 0 ballot)"
    by simp
  have "(int (rises 0 ballot) = 0 \<or> int (rises 0 ballot) = 1) = (rises 0 ballot \<le> 1)"
    by linarith
  then show "outcome (assert_line_vote_ballot G ballot) =
        (if contiguous_ones ballot then Inr () else Inl ConstraintViolation)"
    unfolding line_vote_outcome [OF nonempty binary order] unwrapped
      contiguous_ones_iff [OF binary]
    by simp
next
  assume "2 < order G"
  then have order: "1 < order G" and two: "2 mod order G = 2" by simp_all
  show "outcome (assert_line_vote_ballot G [1, 1, 1, 0, 0]) = Inr ()"
    using order by (subst line_vote_outcome) simp_all
  show "outcome (assert_line_vote_ballot G [0, 0, 0, 0, 0]) = Inr ()"
    using order by (subst line_vote_outcome) simp_all
  show "outcome (assert_line_vote_ballot G [1, 0, 1, 0, 0]) = Inl ConstraintViolation"
    using order two by (subst line_vote_outcome) simp_all
qed

theorem line_vote_single_run_witness:
  "contiguous_ones [0, 1, 1, 0] \<and>
   outcome (assert_line_vote_ballot (Group 7 3) [0, 1, 1, 0]) = Inr () \<and>
   \<not> contiguous_ones [0, 1, 0, 1] \<and>
   outcome (assert_line_vote_ballot (Group 7 3) [0, 1, 0, 1]) = Inl ConstraintViolation \<and>
   outcome (assert_line_vote_ballot (Group 7 3) [1, 1, 1, 0, 0]) = Inr () \<and>
   outcome (assert_line_vote_ballot (Group 7 3) [0, 0, 0, 0, 0]) = Inr () \<and>
   outcome (assert_line_vote_ballot (Group 7 3) [1, 0, 1, 0, 0]) = Inl ConstraintViolation"
proof -
  have run: "contiguous_ones [0, 1, 1, 0]"
    by (subst contiguous_ones_iff) simp_all
  have no_run: "\<not> contiguous_ones [0, 1, 0, 1]"
    by (subst contiguous_ones_iff) simp_all
  have a: "[0, 1, 1, 0 :: int] \<noteq> [] \<and> (\<forall>b\<in>set [0, 1, 1, 0 :: int]. b = 0 \<or> b = 1) \<and>
      int (length [0, 1, 1, 0 :: int]) + 1 < 2 * order (Group 7 3)"
    by simp
  have b: "[0, 1, 0, 1 :: int] \<noteq> [] \<and> (\<forall>b\<in>set [0, 1, 0, 1 :: int]. b = 0 \<or> b = 1) \<and>
      int (length [0, 1, 0, 1 :: int]) + 1 < 2 * order (Group 7 3)"
    by simp
  have c: "2 < order (Group 7 3)" by simp
  from line_vote_single_run [of "[0, 1, 1, 0]" "Group 7 3"] a run
  have 1: "outcome (assert_line_vote_ballot (Group 7 3) [0, 1, 1, 0]) = Inr ()"
    by simp
  from line_vote_single_run [of "[0, 1, 0, 1]" "Group 7 3"] b no_run
  have 2: "outcome (assert_line_vote_ballot (Group 7 3) [0, 1, 0, 1]) = Inl ConstraintViolation"
    by simp
  from line_vote_single_run [of "[]" "Group 7 3"] c
  have 3: "outcome (assert_line_vote_ballot (Group 7 3) [1, 1, 1, 0, 0]) = Inr () \<and>
   outcome (assert_line_vote_ballot (Group 7 3) [0, 0, 0, 0, 0]) = Inr () \<and>
   outcome (assert_line_vote_ballot (Group 7 3) [1, 0, 1, 0, 0]) = Inl ConstraintViolation"
    by blast
  from run no_run 1 2 3 show ?thesis by blast
qed

text \<open>
  The claim C4 as it was stated, for every group, fails in small groups: in the group of
  order 2 the ballot [1,0,1,0,0] has two runs of ones and is accepted, since its
  indicator is 2 = 0; in the group of order 3 the ballot [1,0,1,0,1] with three runs is
  accepted.
\<close>

theorem line_vote_small_group_counterexample:
  "[1, 0, 1, 0, 0 :: int] \<noteq> [] \<and>
   list_all (\<lambda>b. b = 0 \<or> b = 1) [1, 0, 1, 0, 0 :: int] \<and>
   \<not> contiguous_ones [1, 0, 1, 0, 0] \<and>
   assert_line_vote_ballot (Group 2 1) [1, 0, 1, 0, 0] =
     (Inr (), [AssertBit 1, AssertBit 0, AssertBit 1, AssertBit 0, AssertBit 0, AssertBit 0]) \<and>
   list_all (\<lambda>b. b = 0 \<or> b = 1) [1, 0, 1, 0, 1 :: int] \<and>
   \<not> contiguous_ones [1, 0, 1, 0, 1] \<and>
   outcome (assert_line_vote_ballot (Group 3 2) [1, 0, 1, 0, 1]) = Inr ()"
proof -
  have "\<not> contiguous_ones [1, 0, 1, 0, 0]"
    by (subst contiguous_ones_iff) simp_all
  moreover have "\<not> contiguous_ones [1, 0, 1, 0, 1]"
    by (subst contiguous_ones_iff) simp_all
  moreover have "assert_line_vote_ballot (Group 2 1) [1, 0, 1, 0, 0] =
     (Inr (), [AssertBit 1, AssertBit 0, AssertBit 1, AssertBit 0, AssertBit 0, AssertBit 0])"
    by code_simp
  moreover have "outcome (assert_line_vote_ballot (Group 3 2) [1, 0, 1, 0, 1]) = Inr ()"
    by code_simp
  ultimately show ?thesis by simp
qed

section \<open>The line vote on an empty ballot\<close>

text \<open>
  C10: assert_line_vote_ballot requires a ballot that is not empty. On the empty ballot
  its first access, ballot[0], raises IndexError before any constraint is asserted: the
  ballot is neither accepted nor rejected by a constraint.
\<close>

theorem line_vote_empty_ballot_index_error:
  "assert_line_vote_ballot G [] = (Inl IndexError, [])"
  by (simp add: assert_line_vote_ballot_def item_def raise_def gate_bind_def)

section \<open>The Borda ballot over a list of points\<close>

text \<open>
  C9, as amended: each count is the wire computed by get_n_occurences, the sum in the
  group of the equality indicators of the entries, so it is the number of matching
  entries modulo the order of the group. For every ballot with fewer entries than the
  group has elements, and every list ordered_points that is not longer than the
  ballot, assert_pointlist_borda_ballot succeeds if and only if the number of ballot
  entries equal to gen(0) is len(ballot) - len(ordered_points) and each value of
  ordered_points occurs in the ballot exactly once; it fails with a constraint
  violation otherwise. On success the constraints it has asserted are the equality of
  gen(len(ballot) - len(ordered_points)) with the count of gen(0) and, for each point in
  order, the equality of its count with gen(1); each count is the sum of the equality
  indicators and equals the number of matching entries.
\<close>

theorem pointlist_borda_exact_counts:
  assumes len: "length ordered_points \<le> length ballot"
    and short: "int (length ballot) < order G"
  shows "(outcome (assert_pointlist_borda_ballot G ballot ordered_points) = Inr () \<longleftrightarrow>
            length (filter (\<lambda>v. v = gen G 0) ballot) =
              length ballot - length ordered_points \<and>
            (\<forall>point\<in>set ordered_points. length (filter (\<lambda>v. v = point) ballot) = 1))
       \<and> (outcome (assert_pointlist_borda_ballot G ballot ordered_points) = Inr () \<or>
          outcome (assert_pointlist_borda_ballot G ballot ordered_points) = Inl ConstraintViolation)
       \<and> (outcome (assert_pointlist_borda_ballot G ballot ordered_points) = Inr () \<longrightarrow>
            asserted (assert_pointlist_borda_ballot G ballot ordered_points) =
              AssertEqual [gen G (int (length ballot) - int (length ordered_points))]
                          [get_n_occurences G ballot (gen G 0)]
              # map (\<lambda>point. AssertEqual [get_n_occurences G ballot point] [gen G 1])
                    ordered_points)
       \<and> (\<forall>w. get_n_occurences G ballot w = gen G (sum_list (map (\<lambda>v. eq G v w) ballot)) \<and>
               get_n_occurences G ballot w = int (length (filter (\<lambda>v. v = w) ballot)))"
proof -
  note gate = pointlist_borda_gate_counts [OF len, of G]
  have count: "get_n_occurences G ballot w = int (length (filter (\<lambda>v. v = w) ballot))" for w
  proof -
    have "length (filter (\<lambda>v. v = w) ballot) \<le> length ballot" by simp
    with short have "int (length (filter (\<lambda>v. v = w) ballot)) < order G" by linarith
    then show ?thesis
      by (simp add: get_n_occurences_count gen_small)
  qed
  have expected: "gen G (int (length ballot) - int (length ordered_points)) =
                  int (length ballot - length ordered_points)"
    using len short by (simp add: gen_small of_nat_diff)
  have one: "gen G 1 = 1" if "ordered_points \<noteq> []"
  proof -
    from that have "0 < length ordered_points" by simp
    with len short have "1 < order G" by linarith
    then show ?thesis by (simp add: gen_def)
  qed
  have zeros: "(get_n_occurences G ballot (gen G 0) =
                  gen G (int (length ballot) - int (length ordered_points))) =
               (length (filter (\<lambda>v. v = gen G 0) ballot) = length ballot - length ordered_points)"
    unfolding count expected by simp
  have points: "(\<forall>point\<in>set ordered_points. get_n_occurences G ballot point = gen G 1) =
                (\<forall>point\<in>set ordered_points. length (filter (\<lambda>v. v = point) ballot) = 1)"
  proof (cases "ordered_points = []")
    case True
    then show ?thesis by simp
  next
    case False
    then show ?thesis unfolding count one [OF False] by simp
  qed
  from gate have iff: "(outcome (assert_pointlist_borda_ballot G ballot ordered_points) = Inr ()) =
      (get_n_occurences G ballot (gen G 0) =
         gen G (int (length ballot) - int (length ordered_points)) \<and>
       (\<forall>point\<in>set ordered_points. get_n_occurences G ballot point = gen G 1))"
    by blast
  from gate have kinds: "outcome (assert_pointlist_borda_ballot G ballot ordered_points) = Inr () \<or>
      outcome (assert_pointlist_borda_ballot G ballot ordered_points) = Inl ConstraintViolation"
    by blast
  from gate have log: "outcome (assert_pointlist_borda_ballot G ballot ordered_points) = Inr () \<longrightarrow>
      asserted (assert_pointlist_borda_ballot G ballot ordered_points) =
        AssertEqual [gen G (int (length ballot) - int (length ordered_points))]
                    [get_n_occurences G ballot (gen G 0)]
        # map (\<lambda>point. AssertEqual [get_n_occurences G ballot point] [gen G 1])
              ordered_points"
    by blast
  from gate have sums: "get_n_occurences G ballot w =
      gen G (sum_list (map (\<lambda>v. eq G v w) ballot))" for w
    by blast
  from iff have exact: "(outcome (assert_pointlist_borda_ballot G ballot ordered_points) = Inr ()) =
      (length (filter (\<lambda>v. v = gen G 0) ballot) = length ballot - length ordered_points \<and>
       (\<forall>point\<in>set ordered_points. length (filter (\<lambda>v. v = point) ballot) = 1))"
    unfolding zeros points .
  from exact kinds log sums count show ?thesis by blast
qed

theorem pointlist_borda_exact_counts_witness:
  "outcome (assert_pointlist_borda_ballot (Group 7 3) [3, 0, 1, 2] [3, 2, 1]) = Inr () \<and>
   outcome (assert_pointlist_borda_ballot (Group 7 3) [3, 0, 3, 2] [3, 2, 1]) = Inl ConstraintViolation \<and>
   get_n_occurences (Group 7 3) [3, 0, 3, 2] 3 = 2"
proof -
  have len: "length [3, 2, 1 :: int] \<le> length [3, 0, 1, 2 :: int]" by simp
  have len': "length [3, 2, 1 :: int] \<le> length [3, 0, 3, 2 :: int]" by simp
  have short: "int (length [3, 0, 1, 2 :: int]) < order (Group 7 3)" by simp
  have short': "int (length [3, 0, 3, 2 :: int]) < order (Group 7 3)" by simp
  have ok: "outcome (assert_pointlist_borda_ballot (Group 7 3) [3, 0, 1, 2] [3, 2, 1]) = Inr ()"
    using pointlist_borda_exact_counts [OF len short]
    by (simp add: gen_def)
  have bad: "outcome (assert_pointlist_borda_ballot (Group 7 3) [3, 0, 3, 2] [3, 2, 1]) \<noteq> Inr ()"
    using pointlist_borda_exact_counts [OF len' short']
    by (simp add: gen_def)
  have bad': "outcome (assert_pointlist_borda_ballot (Group 7 3) [3, 0, 3, 2] [3, 2, 1]) = Inl ConstraintViolation"
    using pointlist_borda_exact_counts [OF len' short'] bad by blast
  have "get_n_occurences (Group 7 3) [3, 0, 3, 2] 3 =
        int (length (filter (\<lambda>v. v = 3) [3, 0, 3, 2 :: int]))"
    using pointlist_borda_exact_counts [OF len' short'] by blast
  then have twice: "get_n_occurences (Group 7 3) [3, 0, 3, 2] 3 = 2"
    by simp
  from ok bad' twice show ?thesis by simp
qed

text \<open>
  The claim C9 as it was stated, for every ballot, fails when the ballot is not shorter
  than the order of the group: in the group of order 3 the ballot [1,1,1,1] with the
  points [1] is accepted, the value 1 occurring four times and no entry being zero
  where three zeros are expected; in the group of order 2 the ballot [1,1] without
  points is accepted with no zero where two are expected.
\<close>

theorem pointlist_borda_wraps_counterexample:
  "length [1 :: int] \<le> length [1, 1, 1, 1 :: int] \<and>
   assert_pointlist_borda_ballot (Group 3 2) [1, 1, 1, 1] [1] =
     (Inr (), [AssertEqual [0] [0], AssertEqual [1] [1]]) \<and>
   length (filter (\<lambda>v. v = 1) [1, 1, 1, 1 :: int]) = 4 \<and>
   length (filter (\<lambda>v. v = gen (Group 3 2) 0) [1, 1, 1, 1 :: int]) \<noteq>
     length [1, 1, 1, 1 :: int] - length [1 :: int] \<and>
   assert_pointlist_borda_ballot (Group 2 1) [1, 1] [] = (Inr (), [AssertEqual [0] [0]]) \<and>
   length (filter (\<lambda>v. v = gen (Group 2 1) 0) [1, 1 :: int]) \<noteq>
     length [1, 1 :: int] - length ([] :: int list)"
  by code_simp

section \<open>The Condorcet ballot: total orders and the cycle\<close>

text \<open>
  C7: assert_condorcet_ballot succeeds for every binary matrix that encodes a strict
  total order of its candidates (of any number, so of three or more), and fails, with
  a constraint violation, for the matrix of the cycle in which candidate 0 beats 1,
  1 beats 2 and 2 beats 0, whatever stands on its diagonal. An entry 1 in row a and
  column b says that a beats b; the matrix of the cycle read the other way round, where
  the entry says that b beats a, is rejected as well. The entry 1 of these matrices
  is a wire of the group: the group has more than one element.
\<close>

theorem condorcet_accepts_orders_rejects_cycle:
  assumes one: "in_group G 1"
  shows "(strict_total_order m \<longrightarrow> outcome (assert_condorcet_ballot G m) = Inr ()) \<and>
         outcome (assert_condorcet_ballot G [[d0, 1, 0], [0, d1, 1], [1, 0, d2]]) =
           Inl ConstraintViolation \<and>
         outcome (assert_condorcet_ballot G [[d0, 0, 1], [1, d1, 0], [0, 1, d2]]) =
           Inl ConstraintViolation"
proof -
  from one have order: "1 < order G"
    by (simp add: in_group_def)
  from order condorcet_accepts_total_order [of G m] condorcet_rejects_cycle [of G d0 d1 d2]
    condorcet_rejects_reversed_cycle [of G d0 d1 d2]
  show ?thesis by blast
qed

theorem condorcet_accepts_orders_rejects_cycle_witness:
  "strict_total_order [[0, 1, 1], [0, 0, 1], [0, 0, 0]] \<and>
   3 \<le> length [[0, 1, 1], [0, 0, 1], [0, 0, 0 :: int]] \<and>
   outcome (assert_condorcet_ballot (Group 7 3) [[0, 1, 1], [0, 0, 1], [0, 0, 0]]) = Inr () \<and>
   outcome (assert_condorcet_ballot (Group 7 3) [[0, 1, 0], [0, 0, 1], [1, 0, 0]]) =
     Inl ConstraintViolation \<and>
   outcome (assert_condorcet_ballot (Group 7 3) [[0, 0, 1], [1, 0, 0], [0, 1, 0]]) =
     Inl ConstraintViolation"
proof -
  have one: "in_group (Group 7 3) 1"
    by (simp add: in_group_def)
  have sto: "strict_total_order [[0, 1, 1], [0, 0, 1], [0, 0, 0]]"
    by code_simp
  from condorcet_accepts_orders_rejects_cycle [OF one, of "[[0, 1, 1], [0, 0, 1], [0, 0, 0]]" 0 0 0]
    sto
  show ?thesis by simp
qed

section \<open>The single vote\<close>

text \<open>
  C1, as amended: the sum of the entries is a wire, so it is taken modulo the order of
  the group. For every ballot with at most as many entries as the group has elements,
  in a group in which 1 is a wire, assert_single_vote asserts that each entry is binary
  and, by assert_equal on the ballot and the list [gen(1)], that the sum of all entries
  equals gen(1), the sum of a binary ballot being gen of its number of ones. It succeeds
  for every binary vector with exactly one 1 and fails, with a constraint violation,
  for every other ballot: a binary vector with no 1 or with two or more, or a vector
  with an entry that is not binary.
\<close>

theorem single_vote_exactly_one:
  assumes one: "in_group G 1" and short: "int (length ballot) \<le> order G"
  shows "outcome (assert_single_vote G ballot) =
           (if (\<forall>b\<in>set ballot. b = 0 \<or> b = 1) \<and> length (filter (\<lambda>b. b = 1) ballot) = 1
            then Inr () else Inl ConstraintViolation) \<and>
         ((\<forall>b\<in>set ballot. b = 0 \<or> b = 1) \<longrightarrow>
            asserted (assert_single_vote G ballot) =
              map AssertBit ballot @ [AssertEqual ballot [gen G 1]] \<and>
            py_sum G ballot = gen G (int (length (filter (\<lambda>b. b = 1) ballot))))"
proof (cases "\<forall>b\<in>set ballot. b = 0 \<or> b = 1")
  case False
  then have "fst (for_each ballot assert_bit) = Inl ConstraintViolation"
    by (simp only: for_each_bits if_False)
  then have "outcome (assert_single_vote G ballot) = Inl ConstraintViolation"
    by (simp add: assert_single_vote_def fst_gate_bind)
  with False show ?thesis by auto
next
  case binary: True
  let ?k = "length (filter (\<lambda>b. b = 1) ballot)"
  from one have order: "1 < order G" and gen1: "gen G 1 = 1"
    by (simp_all add: in_group_def gen_def)
  have sum: "py_sum G ballot = int ?k mod order G"
    by (simp add: py_sum_mod sum_binary [OF binary])
  have "?k \<le> length ballot" by simp
  with short have k: "int ?k \<le> order G" by linarith
  have wrap: "(int ?k mod order G = 1) = (?k = 1)"
  proof (cases "int ?k = order G")
    case True
    with order show ?thesis by auto
  next
    case False
    with k have "int ?k mod order G = int ?k" by simp
    then show ?thesis by simp
  qed
  have equal: "fst (assert_equal G ballot [gen G 1]) =
               (if ?k = 1 then Inr () else Inl ConstraintViolation)"
  proof (cases "length ballot = 1")
    case True
    then obtain b where b: "ballot = [b]"
      by (cases ballot) auto
    with binary show ?thesis
      by (auto simp: assert_equal_def gen1)
  next
    case False
    have "py_sum G [1] = 1"
      using order by (simp add: py_sum_mod)
    with False sum wrap show ?thesis
      by (simp add: assert_equal_def gen1)
  qed
  from binary equal show ?thesis
    by (simp add: assert_single_vote_def fst_gate_bind snd_gate_bind for_each_bits
        for_each_bits_asserted snd_assert_equal sum gen_def)
qed

theorem single_vote_exactly_one_witness:
  "outcome (assert_single_vote (Group 7 3) [0, 1, 0]) = Inr () \<and>
   asserted (assert_single_vote (Group 7 3) [0, 1, 0]) =
     [AssertBit 0, AssertBit 1, AssertBit 0, AssertEqual [0, 1, 0] [1]] \<and>
   outcome (assert_single_vote (Group 7 3) [1, 1, 0]) = Inl ConstraintViolation \<and>
   outcome (assert_single_vote (Group 7 3) [0, 0]) = Inl ConstraintViolation \<and>
   outcome (assert_single_vote (Group 7 3) [0, 2]) = Inl ConstraintViolation"
proof -
  have one: "in_group (Group 7 3) 1" by (simp add: in_group_def)
  have a: "int (length [0, 1, 0 :: int]) \<le> order (Group 7 3)"
    and b: "int (length [1, 1, 0 :: int]) \<le> order (Group 7 3)"
    and c: "int (length [0, 0 :: int]) \<le> order (Group 7 3)"
    and d: "int (length [0, 2 :: int]) \<le> order (Group 7 3)"
    by simp_all
  from single_vote_exactly_one [OF one a] single_vote_exactly_one [OF one b]
    single_vote_exactly_one [OF one c] single_vote_exactly_one [OF one d]
  show ?thesis by (simp add: gen_def)
qed

text \<open>
  The claim C1 as it was stated, for every ballot, fails when the ballot has more
  entries than the group has elements: in the group of order 2 the binary ballot
  [1,1,1] with three ones is accepted, its sum being 3 = 1.
\<close>

theorem single_vote_wraps_counterexample:
  "list_all (\<lambda>b. b = 0 \<or> b = 1) [1, 1, 1 :: int] \<and>
   length (filter (\<lambda>b. b = 1) [1, 1, 1 :: int]) = 3 \<and>
   assert_single_vote (Group 2 1) [1, 1, 1] =
     (Inr (), [AssertBit 1, AssertBit 1, AssertBit 1, AssertEqual [1, 1, 1] [1]])"
  by code_simp

section \<open>The multi vote with its default parameters\<close>




section \<open>The Borda ballot in tournament style\<close>

text \<open>
  C5, as amended: for every ranking of n wires with pairwise distinct values that are
  not zero and fit within the bits bound of the comparison gate (so that each value
  minus one fits as well), compute_borda_tournament_style_ballot returns n scores and
  asserts nothing; the score of a candidate is gen of twice the number of candidates of
  smaller value, and the scores sum in the group to gen(n*(n-1)), and as integers to
  n*(n-1) when 2*(n-1) is less than the order of the group. This holds if the
  comparison gate decides "at least" (a counts as greater than b when b is at most a);
  if it decides "strictly greater" (as the contract in section 6 of the spec words it),
  it holds for the rankings in which no value is another value plus one.
\<close>

theorem borda_tournament_sum:
  assumes distinct: "distinct ranking"
    and wires: "\<forall>r\<in>set ranking. 0 < r \<and> in_group G r \<and> fits r bits"
    and reading: "cmp = at_least \<or>
                  cmp = strictly_greater \<and> (\<forall>x\<in>set ranking. \<forall>y\<in>set ranking. y + 1 \<noteq> x)"
  shows "compute_borda_tournament_style_ballot cmp G ranking bits =
           (Inr (tournament_scores G ranking), []) \<and>
         length (tournament_scores G ranking) = length ranking \<and>
         py_sum G (tournament_scores G ranking) =
           gen G (int (length ranking) * (int (length ranking) - 1)) \<and>
         (2 * (int (length ranking) - 1) < order G \<longrightarrow>
            sum_list (tournament_scores G ranking) =
              int (length ranking) * (int (length ranking) - 1))"
proof -
  have smaller: "\<forall>x\<in>set ranking. \<forall>y\<in>set ranking. x \<noteq> y \<longrightarrow> cmp (x - 1) y = (y < x)"
    using reading
  proof
    assume "cmp = at_least"
    then show ?thesis by (auto simp: at_least_def)
  next
    assume "cmp = strictly_greater \<and> (\<forall>x\<in>set ranking. \<forall>y\<in>set ranking. y + 1 \<noteq> x)"
    then show ?thesis by (fastforce simp: strictly_greater_def)
  qed
  from borda_scores [OF distinct wires smaller]
    tournament_scores_group_sum [OF distinct, of G]
    tournament_scores_sum [OF distinct, of G]
  show ?thesis
    by (simp add: ret_def tournament_scores_def)
qed

theorem borda_tournament_sum_witness:
  "compute_borda_tournament_style_ballot at_least (Group 7 3) [3, 1, 2] 2 = (Inr [4, 0, 2], []) \<and>
   sum_list [4, 0, 2 :: int] = 3 * (3 - 1) \<and>
   compute_borda_tournament_style_ballot strictly_greater (Group 7 3) [5, 1, 3] 3 =
     (Inr [4, 0, 2], [])"
proof -
  have a: "distinct [3, 1, 2 :: int]" and b: "distinct [5, 1, 3 :: int]" by simp_all
  have wa: "\<forall>r\<in>set [3, 1, 2]. 0 < r \<and> in_group (Group 7 3) r \<and> fits r 2"
    and wb: "\<forall>r\<in>set [5, 1, 3]. 0 < r \<and> in_group (Group 7 3) r \<and> fits r 3"
    by (simp_all add: in_group_def fits_def)
  have ra: "at_least = at_least \<or>
            at_least = strictly_greater \<and> (\<forall>x\<in>set [3, 1, 2 :: int]. \<forall>y\<in>set [3, 1, 2]. y + 1 \<noteq> x)"
    by simp
  have rb: "strictly_greater = at_least \<or>
            strictly_greater = strictly_greater \<and>
            (\<forall>x\<in>set [5, 1, 3 :: int]. \<forall>y\<in>set [5, 1, 3]. y + 1 \<noteq> x)"
    by simp
  have sa: "tournament_scores (Group 7 3) [3, 1, 2] = [4, 0, 2]"
    and sb: "tournament_scores (Group 7 3) [5, 1, 3] = [4, 0, 2]"
    by (simp_all add: tournament_scores_def gen_def)
  from borda_tournament_sum [OF a wa ra] borda_tournament_sum [OF b wb rb]
  show ?thesis by (simp add: sa sb)
qed

text \<open>
  The claim C5 as it was stated, for every ranking of distinct values that fit, with
  their values minus one, within the bits bound, fails under both readings of the
  comparison gate on a ranking with the value zero: in the group of order 7 with
  bits = 3 the ranking [0,2] has the scores [2,2], zero minus one being the wire 6,
  and their sum is 4 where n*(n-1) is 2. If the gate decides "strictly greater", the
  ranking [1,2] has the scores [0,0]. The integer sum of the scores also differs from
  n*(n-1) when a score wraps around: in the group of order 5 the ranking [1,2,3,4] has
  the scores [0,2,4,1], of sum 7 where n*(n-1) is 12.
\<close>

theorem borda_tournament_counterexample:
  "distinct [0, 2 :: int] \<and>
   fits 0 3 \<and> fits 2 3 \<and> fits (wire_sub (Group 7 3) 0 1) 3 \<and> fits (wire_sub (Group 7 3) 2 1) 3 \<and>
   compute_borda_tournament_style_ballot at_least (Group 7 3) [0, 2] 3 = (Inr [2, 2], []) \<and>
   compute_borda_tournament_style_ballot strictly_greater (Group 7 3) [0, 2] 3 = (Inr [2, 2], []) \<and>
   sum_list [2, 2 :: int] \<noteq> 2 * (2 - 1) \<and>
   py_sum (Group 7 3) [2, 2] \<noteq> gen (Group 7 3) (2 * (2 - 1)) \<and>
   compute_borda_tournament_style_ballot strictly_greater (Group 7 3) [1, 2] 2 = (Inr [0, 0], []) \<and>
   compute_borda_tournament_style_ballot at_least (Group 5 3) [1, 2, 3, 4] 3 =
     (Inr [0, 2, 4, 1], []) \<and>
   sum_list [0, 2, 4, 1 :: int] \<noteq> 4 * (4 - 1)"
  by code_simp

section \<open>The Condorcet ballot of two candidates\<close>

text \<open>
  C6: the claim is that the constraint "matrix[i][j] + matrix[j][i] is binary" is
  asserted for every pair i, j of different candidates, also on a matrix of two
  candidates. The gate asserts it inside its loop over the triples of pairwise
  different candidates, and two candidates have no such triple: on the matrix
  in which each of the two candidates beats the other, the only constraints asserted
  are the two bit checks of the entries, and the gate succeeds in every group, although
  the sum of the two entries is 2. With three or more candidates the pair constraint
  is asserted (lemma condorcet_three_candidates_pairs).
\<close>

theorem condorcet_two_candidates_no_pair_constraint:
  "assert_condorcet_ballot G [[d0, 1], [1, d1]] = (Inr (), [AssertBit 1, AssertBit 1]) \<and>
   py_sum (Group 7 3) [1, 1] = 2"
proof -
  have len: "length [[d0, 1], [1, d1]] = 2" by simp
  have triples: "product3 2 = [(0, 0, 0), (0, 0, 1), (0, 1, 0), (0, 1, 1),
                      (1, 0, 0), (1, 0, 1), (1, 1, 0), (1, 1, 1)]"
    by code_simp
  have "assert_condorcet_ballot G [[d0, 1], [1, d1]] = (Inr (), [AssertBit 1, AssertBit 1])"
    unfolding assert_condorcet_ballot_def len triples
    by (simp add: gate_bind_def assert_bit_def ret_def)
  moreover have "py_sum (Group 7 3) [1, 1] = 2"
    by code_simp
  ultimately show ?thesis by simp
qed

end
